theory Spec2Isabelle
  imports Main "HOL-Library.Multiset"
begin

section \<open>EPGStation reservation planner (ReservationManager.ts)\<close>

text \<open>
  A shallow embedding of \<^verbatim>\<open>src/server/Operator/ReservationManager.ts\<close>.
  JavaScript numbers that hold identifiers and epoch milliseconds are \<open>int\<close>;
  an optional or nullable field is an \<open>option\<close> (\<open>None\<close> is \<^verbatim>\<open>undefined\<close> or \<^verbatim>\<open>null\<close>);
  a thrown \<^verbatim>\<open>Error\<close> is a value of \<open>error\<close>; the object fields mutated by the methods
  are the fields of the record \<open>state\<close>, passed in and returned. Logging is left out.
\<close>

subsection \<open>Data\<close>

text \<open>
  Modelled from the spec: the declaration of \<^verbatim>\<open>DBSchema.ProgramSchema\<close> is not among the
  sources. The fields are those the planner reads (\<^verbatim>\<open>id\<close>, here \<open>id_p\<close>, \<^verbatim>\<open>startAt\<close>,
  \<^verbatim>\<open>endAt\<close>, \<^verbatim>\<open>name\<close>) and the channel type the tuner reads; times are epoch
  milliseconds.
\<close>

record ProgramSchema =
  id_p :: int
  startAt :: int
  endAt :: int
  channelType :: string
  name :: string

text \<open>
  Modelled from the spec: the declaration of \<^verbatim>\<open>DBSchema.RulesSchema\<close> is not among the
  sources. The fields are those the adapter reads; all but \<^verbatim>\<open>id\<close> (here \<open>id_r\<close>),
  \<^verbatim>\<open>week\<close> and \<^verbatim>\<open>enable\<close> are nullable, as the adapter's tests for \<^verbatim>\<open>null\<close> have it.
\<close>

record RulesSchema =
  id_r :: int
  week :: int
  enable :: bool
  keyword :: "string option"
  ignoreKeyword :: "string option"
  keyCS :: "bool option"
  keyRegExp :: "bool option"
  title :: "bool option"
  description :: "bool option"
  extended :: "bool option"
  GR :: "bool option"
  BS :: "bool option"
  CS :: "bool option"
  SKY :: "bool option"
  station :: "int option"
  genrelv1 :: "int option"
  genrelv2 :: "int option"
  startTime :: "int option"
  timeRange :: "int option"
  isFree :: "bool option"
  durationMin :: "int option"
  durationMax :: "int option"
  directory :: "string option"
  recordedFormat :: "string option"
  delTs :: "bool option"
  mode1 :: "int option"
  directory1 :: "string option"
  mode2 :: "int option"
  directory2 :: "string option"
  mode3 :: "int option"
  directory3 :: "string option"

text \<open>
  Modelled from the spec: the declarations of \<^verbatim>\<open>SearchInterface\<close>, \<^verbatim>\<open>OptionInterface\<close> and
  \<^verbatim>\<open>EncodeInterface\<close> (\<^verbatim>\<open>./RuleInterface\<close>) are not among the sources. The fields are
  those the adapter assigns, named as in the source with a prime, since they are the
  names of the rule's fields. An absent optional field is \<open>None\<close>.
\<close>

record SearchInterface =
  week' :: int
  keyword' :: "string option"
  ignoreKeyword' :: "string option"
  keyCS' :: "bool option"
  keyRegExp' :: "bool option"
  title' :: "bool option"
  description' :: "bool option"
  extended' :: "bool option"
  GR' :: "bool option"
  BS' :: "bool option"
  CS' :: "bool option"
  SKY' :: "bool option"
  station' :: "int option"
  genrelv1' :: "int option"
  genrelv2' :: "int option"
  startTime' :: "int option"
  timeRange' :: "int option"
  isFree' :: "bool option"
  durationMin' :: "int option"
  durationMax' :: "int option"

record OptionInterface =
  enable' :: bool
  directory' :: "string option"
  recordedFormat' :: "string option"

record EncodeInterface =
  delTs' :: bool
  mode1' :: "int option"
  directory1' :: "string option"
  mode2' :: "int option"
  directory2' :: "string option"
  mode3' :: "int option"
  directory3' :: "string option"

text \<open>
  Modelled from the spec: the declaration of \<^verbatim>\<open>ReserveProgram\<close>
  (\<^verbatim>\<open>./ReserveProgramInterface\<close>) is not among the sources. The fields are those that
  \<^verbatim>\<open>addReserve\<close> and \<^verbatim>\<open>updateAll\<close> give the reservations they build; \<^verbatim>\<open>ruleId\<close>,
  \<^verbatim>\<open>ruleOption\<close>, \<^verbatim>\<open>encodeOption\<close> and \<^verbatim>\<open>manualId\<close> are optional.
\<close>

record ReserveProgram =
  program :: ProgramSchema
  ruleId :: "int option"
  ruleOption :: "OptionInterface option"
  encodeOption :: "EncodeInterface option"
  isSkip :: bool
  isManual :: bool
  manualId :: "int option"
  isConflict :: bool

record ReserveAllItem =
  programId :: int
  ruleId' :: "int option"

record ReserveAllId =
  reserves' :: "ReserveAllItem list"
  conflicts :: "ReserveAllItem list"
  skips :: "ReserveAllItem list"

subsection \<open>The rule-to-query adapter\<close>

text \<open>
  \<^verbatim>\<open>if(rule.f !== null) { search.f = rule.f }\<close>: the update \<open>upd\<close> of the field is applied
  when the rule's value is not null.
\<close>

definition assign_nonnull ::
  "'v option \<Rightarrow> (('v option \<Rightarrow> 'v option) \<Rightarrow> 's \<Rightarrow> 's) \<Rightarrow> 's \<Rightarrow> 's" where
  "assign_nonnull v upd s = (if v \<noteq> None then upd (\<lambda>_. v) s else s)"

definition createSearchOption :: "RulesSchema \<Rightarrow> SearchInterface" where
  "createSearchOption rule =
     fold id
       [assign_nonnull (keyword rule) keyword'_update,
        assign_nonnull (ignoreKeyword rule) ignoreKeyword'_update,
        assign_nonnull (keyCS rule) keyCS'_update,
        assign_nonnull (keyRegExp rule) keyRegExp'_update,
        assign_nonnull (title rule) title'_update,
        assign_nonnull (description rule) description'_update,
        assign_nonnull (extended rule) extended'_update,
        assign_nonnull (GR rule) GR'_update,
        assign_nonnull (BS rule) BS'_update,
        assign_nonnull (CS rule) CS'_update,
        assign_nonnull (SKY rule) SKY'_update,
        assign_nonnull (station rule) station'_update,
        assign_nonnull (genrelv1 rule) genrelv1'_update,
        assign_nonnull (genrelv2 rule) genrelv2'_update,
        assign_nonnull (startTime rule) startTime'_update,
        assign_nonnull (timeRange rule) timeRange'_update,
        assign_nonnull (isFree rule) isFree'_update,
        assign_nonnull (durationMin rule) durationMin'_update,
        assign_nonnull (durationMax rule) durationMax'_update]
       \<lparr>week' = week rule, keyword' = None, ignoreKeyword' = None, keyCS' = None,
        keyRegExp' = None, title' = None, description' = None, extended' = None,
        GR' = None, BS' = None, CS' = None, SKY' = None, station' = None,
        genrelv1' = None, genrelv2' = None, startTime' = None, timeRange' = None,
        isFree' = None, durationMin' = None, durationMax' = None\<rparr>"

definition createOption :: "RulesSchema \<Rightarrow> OptionInterface" where
  "createOption rule =
     fold id
       [assign_nonnull (directory rule) directory'_update,
        assign_nonnull (recordedFormat rule) recordedFormat'_update]
       \<lparr>enable' = enable rule, directory' = None, recordedFormat' = None\<rparr>"

definition createEncodeOption :: "RulesSchema \<Rightarrow> EncodeInterface option" where
  "createEncodeOption rule =
     (case delTs rule of
        None \<Rightarrow> None
      | Some d \<Rightarrow>
          Some (fold id
            [assign_nonnull (mode1 rule) mode1'_update,
             assign_nonnull (directory1 rule) directory1'_update,
             assign_nonnull (mode2 rule) mode2'_update,
             assign_nonnull (directory2 rule) directory2'_update,
             assign_nonnull (mode3 rule) mode3'_update,
             assign_nonnull (directory3 rule) directory3'_update]
            \<lparr>delTs' = d, mode1' = None, directory1' = None, mode2' = None,
             directory2' = None, mode3' = None, directory3' = None\<rparr>))"

subsection \<open>getReservesAllId\<close>

text \<open>The body of the \<^verbatim>\<open>forEach\<close>: one reservation is pushed onto one of the three arrays.\<close>

definition getReservesAllId_step :: "ReserveAllId \<Rightarrow> ReserveProgram \<Rightarrow> ReserveAllId" where
  "getReservesAllId_step acc reserve =
     (let result0 = \<lparr>programId = id_p (program reserve), ruleId' = None\<rparr>;
          result = (if ruleId reserve \<noteq> None then result0\<lparr>ruleId' := ruleId reserve\<rparr>
                    else result0)
      in if isConflict reserve then acc\<lparr>conflicts := conflicts acc @ [result]\<rparr>
         else if isSkip reserve then acc\<lparr>skips := skips acc @ [result]\<rparr>
         else acc\<lparr>reserves' := reserves' acc @ [result]\<rparr>)"

definition getReservesAllId :: "ReserveProgram list \<Rightarrow> ReserveAllId" where
  "getReservesAllId rs =
     foldl getReservesAllId_step \<lparr>reserves' = [], conflicts = [], skips = []\<rparr> rs"

text \<open>The item of a reservation: its program id and its rule id, when it has one.\<close>

definition item_of :: "ReserveProgram \<Rightarrow> ReserveAllItem" where
  "item_of r = \<lparr>programId = id_p (program r), ruleId' = ruleId r\<rparr>"

subsection \<open>Array.prototype.sort\<close>

text \<open>
  \<^verbatim>\<open>xs.sort(cmp)\<close> with a comparator that returns a number: a stable sort (insertion
  sort; an element goes before the first element it does not compare greater than).
  A comparator result \<^verbatim>\<open>NaN\<close> counts as \<open>0\<close>, as the language has it.
\<close>

fun insert_cmp :: "('a \<Rightarrow> 'a \<Rightarrow> int) \<Rightarrow> 'a \<Rightarrow> 'a list \<Rightarrow> 'a list" where
  "insert_cmp cmp x [] = [x]"
| "insert_cmp cmp x (y # ys) =
     (if cmp x y \<le> 0 then x # y # ys else y # insert_cmp cmp x ys)"

definition array_sort :: "('a \<Rightarrow> 'a \<Rightarrow> int) \<Rightarrow> 'a list \<Rightarrow> 'a list" where
  "array_sort cmp xs = foldr (insert_cmp cmp) xs []"

text \<open>
  \<^verbatim>\<open>sortReserveProgram\<close>. A difference with an undefined \<^verbatim>\<open>manualId\<close> or \<^verbatim>\<open>ruleId\<close> is
  \<^verbatim>\<open>NaN\<close>, here \<open>0\<close>.
\<close>

definition sortReserveProgram :: "ReserveProgram \<Rightarrow> ReserveProgram \<Rightarrow> int" where
  "sortReserveProgram a b =
     (if isManual a \<and> isManual b then
        (case (manualId a, manualId b) of (Some x, Some y) \<Rightarrow> x - y | _ \<Rightarrow> 0)
      else if isManual a \<and> \<not> isManual b then - 1
      else if \<not> isManual a \<and> isManual b then 1
      else if \<not> isManual a \<and> \<not> isManual b then
        (case (ruleId a, ruleId b) of (Some x, Some y) \<Rightarrow> x - y | _ \<Rightarrow> 0)
      else 0)"

text \<open>The comparator of \<^verbatim>\<open>sort((a, b) => a.program.startAt - b.program.startAt)\<close>.\<close>

definition byStartAt :: "ReserveProgram \<Rightarrow> ReserveProgram \<Rightarrow> int" where
  "byStartAt a b = startAt (program a) - startAt (program b)"

subsection \<open>Tuner\<close>

text \<open>
  Modelled from the spec: the declaration of \<^verbatim>\<open>apid.TunerDevice\<close> is not among the
  sources. A tuner descriptor is an index and the channel types the tuner accepts.
\<close>

record TunerDevice =
  index :: int
  types :: "string list"

text \<open>
  Modelled from the spec: the class \<^verbatim>\<open>Tuner\<close> (\<^verbatim>\<open>./Tuner\<close>) is not among the sources.
  A tuner is its descriptor and the programs it holds (\<open>held\<close>); \<open>tryAdd\<close> (the method \<^verbatim>\<open>add\<close>,
  which throws when it fails) succeeds iff the program's channel type is one of the
  tuner's and the program overlaps no held program as half-open intervals
  \<open>[startAt, endAt)\<close>, and then appends the program; \<open>clear\<close> discards the held programs.
\<close>

record Tuner = TunerDevice +
  held :: "ProgramSchema list"

text \<open>Modelled from the spec: the constructor of \<^verbatim>\<open>Tuner\<close>; a new tuner holds nothing.\<close>

definition newTuner :: "TunerDevice \<Rightarrow> Tuner" where
  "newTuner d = \<lparr>index = index d, types = types d, held = []\<rparr>"

text \<open>Modelled from the spec: two programs overlap as half-open intervals.\<close>

definition overlaps :: "ProgramSchema \<Rightarrow> ProgramSchema \<Rightarrow> bool" where
  "overlaps p q = (startAt p < endAt q \<and> startAt q < endAt p)"

text \<open>
  Modelled from the spec: \<^verbatim>\<open>Tuner.add\<close>, \<open>None\<close> when it throws and the tuner with the
  program appended when it succeeds.
\<close>

definition tryAdd :: "Tuner \<Rightarrow> ProgramSchema \<Rightarrow> Tuner option" where
  "tryAdd t p =
     (if channelType p \<in> set (types t) \<and> \<not> list_ex (overlaps p) (held t)
      then Some (t\<lparr>held := held t @ [p]\<rparr>) else None)"

text \<open>Modelled from the spec: \<^verbatim>\<open>Tuner.clear\<close> discards the held programs.\<close>

definition clear :: "Tuner \<Rightarrow> Tuner" where
  "clear t = t\<lparr>held := []\<rparr>"

subsection \<open>createReserves\<close>

record event =
  time :: int
  isStart :: bool
  idx :: nat

text \<open>
  The loop that builds \<^verbatim>\<open>list\<close>: \<open>i\<close> is the index into the sorted \<^verbatim>\<open>matches\<close>,
  \<open>programIndex\<close> the program ids seen so far.
\<close>

fun make_list :: "ReserveProgram list \<Rightarrow> nat \<Rightarrow> (int \<rightharpoonup> bool) \<Rightarrow> event list" where
  "make_list [] i programIndex = []"
| "make_list (m # ms) i programIndex =
     (if programIndex (id_p (program m)) = None then
        \<lparr>time = startAt (program m), isStart = True, idx = i\<rparr> #
        \<lparr>time = endAt (program m), isStart = False, idx = i\<rparr> #
        make_list ms (Suc i) (programIndex(id_p (program m) \<mapsto> True))
      else make_list ms (Suc i) programIndex)"

text \<open>
  The loop over \<^verbatim>\<open>this.tuners\<close>: the first tuner whose \<^verbatim>\<open>add\<close> does not throw takes
  the program; \<open>None\<close> when every tuner throws (\<^verbatim>\<open>isConflict\<close> stays \<^verbatim>\<open>true\<close>).
\<close>

fun tryTuners :: "Tuner list \<Rightarrow> ProgramSchema \<Rightarrow> Tuner list option" where
  "tryTuners [] p = None"
| "tryTuners (t # ts) p =
     (case tryAdd t p of
        Some t' \<Rightarrow> Some (t' # ts)
      | None \<Rightarrow> map_option ((#) t) (tryTuners ts p))"

text \<open>
  The loop over the active set (\<^verbatim>\<open>reserves\<close> in the source, here the indices into
  \<^verbatim>\<open>matches\<close>: each entry of the source holds \<^verbatim>\<open>matches[idx]\<close> itself, by reference).
\<close>

fun evaluate ::
  "nat list \<Rightarrow> ReserveProgram list \<Rightarrow> Tuner list \<Rightarrow> ReserveProgram list \<times> Tuner list" where
  "evaluate [] matches tuners = (matches, tuners)"
| "evaluate (r # rs) matches tuners =
     (if isSkip (matches ! r) then evaluate rs matches tuners
      else case tryTuners tuners (program (matches ! r)) of
             Some tuners' \<Rightarrow> evaluate rs matches tuners'
           | None \<Rightarrow> evaluate rs (matches[r := (matches ! r)\<lparr>isConflict := True\<rparr>]) tuners)"

text \<open>The active set after the event \<open>l\<close>: pushed on a start, filtered on an end, then sorted.\<close>

definition active_after :: "ReserveProgram list \<Rightarrow> nat list \<Rightarrow> event \<Rightarrow> nat list" where
  "active_after matches reserves l =
     array_sort (\<lambda>a b. sortReserveProgram (matches ! a) (matches ! b))
       (if isStart l then reserves @ [idx l] else filter (\<lambda>r. r \<noteq> idx l) reserves)"

text \<open>One turn of the loop over \<^verbatim>\<open>list\<close>, on (\<^verbatim>\<open>matches\<close>, the active set, \<^verbatim>\<open>this.tuners\<close>).\<close>

definition sweep_event ::
  "ReserveProgram list \<times> nat list \<times> Tuner list \<Rightarrow> event
     \<Rightarrow> ReserveProgram list \<times> nat list \<times> Tuner list" where
  "sweep_event s l =
     (case s of (matches, reserves, tuners) \<Rightarrow>
        if isSkip (matches ! idx l) then s
        else let active = active_after matches reserves l;
                 (matches', tuners') = evaluate active matches (map clear tuners)
             in (matches', active, tuners'))"

text \<open>\<^verbatim>\<open>list\<close>, built from the sorted \<^verbatim>\<open>matches\<close> and sorted by \<^verbatim>\<open>time\<close>.\<close>

definition event_list :: "ReserveProgram list \<Rightarrow> event list" where
  "event_list matches =
     array_sort (\<lambda>a b. time a - time b) (make_list matches 0 Map.empty)"

text \<open>\<^verbatim>\<open>createReserves\<close> returns the new reservations; \<^verbatim>\<open>this.tuners\<close> is returned with them.\<close>

definition createReserves ::
  "Tuner list \<Rightarrow> ReserveProgram list \<Rightarrow> ReserveProgram list \<times> Tuner list" where
  "createReserves tuners matches0 =
     (let matches = array_sort sortReserveProgram matches0;
          list = event_list matches;
          (matches', reserves, tuners') = foldl sweep_event (matches, [], tuners) list;
          newReserves = map (\<lambda>l. matches' ! idx l) (filter isStart list)
      in (array_sort byStartAt newReserves, tuners'))"

subsection \<open>The sweep, event by event\<close>

text \<open>
  The tuners as the \<open>j\<close>-th candidate of the active set finds them: the tuners after
  the \<open>j\<close> candidates before it have been offered to them, by the loop \<open>evaluate\<close>.
\<close>

definition turn :: "nat list \<Rightarrow> ReserveProgram list \<Rightarrow> Tuner list \<Rightarrow> nat \<Rightarrow> Tuner list" where
  "turn active matches tuners j = snd (evaluate (take j active) matches tuners)"

text \<open>
  No tuner accepts the \<open>j\<close>-th candidate of the active set: it is not skipped, and at its
  turn \<open>tryAdd\<close> fails on every tuner.
\<close>

definition refused :: "nat list \<Rightarrow> ReserveProgram list \<Rightarrow> Tuner list \<Rightarrow> nat \<Rightarrow> bool" where
  "refused active matches tuners j =
     (\<not> isSkip (matches ! (active ! j))
      \<and> list_all (\<lambda>t. tryAdd t (program (matches ! (active ! j))) = None)
           (turn active matches tuners j))"

text \<open>
  The state of the loop over \<^verbatim>\<open>list\<close> in \<open>createReserves\<close>, called with the tuners and
  the sorted candidates, before the \<open>k\<close>-th event: (\<^verbatim>\<open>matches\<close>, the active set,
  \<^verbatim>\<open>this.tuners\<close>).
\<close>

definition before_event ::
  "Tuner list \<Rightarrow> ReserveProgram list \<Rightarrow> nat
     \<Rightarrow> ReserveProgram list \<times> nat list \<times> Tuner list" where
  "before_event tuners matches k =
     foldl sweep_event (matches, [], tuners) (take k (event_list matches))"

text \<open>
  At the \<open>k\<close>-th event of that loop the candidate \<open>i\<close> (an index into the sorted
  candidates) is in the active set and no tuner accepts it.
\<close>

definition refused_at :: "Tuner list \<Rightarrow> ReserveProgram list \<Rightarrow> nat \<Rightarrow> nat \<Rightarrow> bool" where
  "refused_at tuners matches k i =
     (case before_event tuners matches k of
        (m, act, tns) \<Rightarrow>
          let l = event_list matches ! k;
              active = active_after m act l
          in \<not> isSkip (m ! idx l)
             \<and> list_ex (\<lambda>j. active ! j = i \<and> refused active m (map clear tns) j)
                  [0..<length active])"

text \<open>
  The candidates in flight after the events \<open>past\<close>: not skipped, their start event
  is among the events and their end event is not.
\<close>

definition in_flight :: "ReserveProgram list \<Rightarrow> event list \<Rightarrow> nat list" where
  "in_flight matches past =
     filter (\<lambda>i. \<not> isSkip (matches ! i) \<and> \<not> list_ex (\<lambda>l. \<not> isStart l \<and> idx l = i) past)
       (map idx (filter isStart past))"

subsection \<open>The planner state and its collaborators\<close>

text \<open>
  The fields of the \<^verbatim>\<open>ReservationManager\<close> object. \<open>written\<close> is the history of
  \<^verbatim>\<open>writeReservesFile\<close>: every document written to \<^verbatim>\<open>reservesPath\<close>, the latest last.
\<close>

record state =
  isRunning :: bool
  reserves :: "ReserveProgram list"
  tuners :: "Tuner list"
  written :: "ReserveProgram list list"

text \<open>
  The collaborators, as the answers they give during one operation: the catalogue
  (\<^verbatim>\<open>programDB.findId(id, true)\<close>, \<^verbatim>\<open>programDB.findRule\<close>), the rule store
  (\<^verbatim>\<open>rulesDB.findAll\<close>, \<^verbatim>\<open>rulesDB.findId\<close>), \<^verbatim>\<open>CheckRule.checkEncodeOption\<close> and the clock
  (\<^verbatim>\<open>new Date().getTime()\<close>). \<open>Inl\<close> is a rejected promise, with its error.
\<close>

record env =
  findId :: "int \<Rightarrow> string + ProgramSchema list"
  findRule :: "SearchInterface \<Rightarrow> string + ProgramSchema list"
  findAll :: "string + RulesSchema list"
  rules_findId :: "int \<Rightarrow> string + RulesSchema list"
  checkEncodeOption :: "EncodeInterface \<Rightarrow> bool"
  getTime :: int

datatype error =
    ReservationManagerIsRunning
  | ReservationManagerUpdateManualIsRunning
  | ReservationManagerAddFailed
  | ProgramIsNotFound
  | ReservationManagerAddReserveConflict
  | DBError string

text \<open>
  A call that a method starts and does not await (\<^verbatim>\<open>this.updateAll()\<close> at the end of
  \<^verbatim>\<open>cancel\<close>, \<^verbatim>\<open>this.updateRule(ruleId)\<close> in \<^verbatim>\<open>removeSkip\<close>).
\<close>

datatype call = CallUpdateAll | CallUpdateRule int

text \<open>What a method leaves: the state, the error it threw if any, the call it started.\<close>

record outcome =
  post :: state
  thrown :: "error option"
  started :: "call option"

definition returns :: "state \<Rightarrow> outcome" where
  "returns s = \<lparr>post = s, thrown = None, started = None\<rparr>"

definition throws :: "error \<Rightarrow> state \<Rightarrow> outcome" where
  "throws e s = \<lparr>post = s, thrown = Some e, started = None\<rparr>"

definition writeReservesFile :: "state \<Rightarrow> state" where
  "writeReservesFile s = s\<lparr>written := written s @ [reserves s]\<rparr>"

definition finalize :: "state \<Rightarrow> state" where
  "finalize s = s\<lparr>isRunning := False\<rparr>"

subsection \<open>Readers\<close>

text \<open>\<^verbatim>\<open>xs.slice(offset, limit + offset)\<close>, for a limit and an offset that are not negative.\<close>

definition slice :: "'a list \<Rightarrow> nat \<Rightarrow> nat \<Rightarrow> 'a list" where
  "slice xs offset limit = take limit (drop offset xs)"

definition getReservesAll :: "state \<Rightarrow> nat option \<Rightarrow> nat \<Rightarrow> ReserveProgram list" where
  "getReservesAll s limit offset =
     (case limit of Some n \<Rightarrow> slice (reserves s) offset n | None \<Rightarrow> reserves s)"

text \<open>\<^verbatim>\<open>ReserveLimit\<close>, a pair: the field \<^verbatim>\<open>reserves\<close>, then \<^verbatim>\<open>total\<close>.\<close>

definition limited :: "ReserveProgram list \<Rightarrow> nat option \<Rightarrow> nat \<Rightarrow> ReserveProgram list \<times> nat" where
  "limited rs limit offset =
     ((case limit of None \<Rightarrow> rs | Some n \<Rightarrow> slice rs offset n), length rs)"

definition getReserves :: "state \<Rightarrow> nat option \<Rightarrow> nat \<Rightarrow> ReserveProgram list \<times> nat" where
  "getReserves s limit offset =
     limited (filter (\<lambda>reserve. \<not> isConflict reserve \<and> \<not> isSkip reserve) (reserves s))
       limit offset"

definition getConflicts :: "state \<Rightarrow> nat option \<Rightarrow> nat \<Rightarrow> ReserveProgram list \<times> nat" where
  "getConflicts s limit offset = limited (filter isConflict (reserves s)) limit offset"

definition getSkips :: "state \<Rightarrow> nat option \<Rightarrow> nat \<Rightarrow> ReserveProgram list \<times> nat" where
  "getSkips s limit offset = limited (filter isSkip (reserves s)) limit offset"

subsection \<open>setTuners, clean\<close>

definition setTuners :: "state \<Rightarrow> TunerDevice list \<Rightarrow> outcome" where
  "setTuners s devices = returns (s\<lparr>tuners := map newTuner devices\<rparr>)"

definition clean :: "env \<Rightarrow> state \<Rightarrow> outcome" where
  "clean e s =
     (let now = getTime e
      in returns (s\<lparr>reserves :=
           filter (\<lambda>reserve. \<not> (now > endAt (program reserve))) (reserves s)\<rparr>))"

subsection \<open>cancel, removeSkip\<close>

text \<open>
  The loop of \<^verbatim>\<open>cancel\<close>, up to its \<^verbatim>\<open>break\<close>: the list after the first reservation of
  the program is spliced out (manual) or skipped (rule); \<open>None\<close> when none matches.
\<close>

fun cancel_loop :: "ReserveProgram list \<Rightarrow> int \<Rightarrow> ReserveProgram list option" where
  "cancel_loop [] i = None"
| "cancel_loop (r # rs) i =
     (if id_p (program r) = i then
        (if isManual r then Some rs
         else Some (r\<lparr>isSkip := True, isConflict := False\<rparr> # rs))
      else map_option ((#) r) (cancel_loop rs i))"

text \<open>
  A call that is not awaited runs at once up to its first \<^verbatim>\<open>await\<close>: \<^verbatim>\<open>updateAll\<close> and
  \<^verbatim>\<open>updateRule\<close>, called on an idle planner, set \<^verbatim>\<open>isRunning\<close> before they are suspended. So
  the caller returns with the flag set and the call started; the rest of the call is
  the operation \<open>Resume\<close> below.
\<close>

definition start :: "call \<Rightarrow> state \<Rightarrow> outcome" where
  "start c s = (returns (s\<lparr>isRunning := True\<rparr>))\<lparr>started := Some c\<rparr>"

definition cancel :: "state \<Rightarrow> int \<Rightarrow> outcome" where
  "cancel s i =
     (if isRunning s then throws ReservationManagerIsRunning s
      else let s1 = s\<lparr>isRunning := True\<rparr>
           in case cancel_loop (reserves s1) i of
                None \<Rightarrow> returns (s1\<lparr>isRunning := False\<rparr>)
              | Some rs \<Rightarrow>
                  start CallUpdateAll
                    ((writeReservesFile (s1\<lparr>reserves := rs\<rparr>))\<lparr>isRunning := False\<rparr>))"

text \<open>
  The loop of \<^verbatim>\<open>removeSkip\<close>, up to its \<^verbatim>\<open>break\<close>: the list with the skip of the first
  reservation of the program removed, and that reservation's \<^verbatim>\<open>ruleId\<close>.
\<close>

fun removeSkip_loop ::
  "ReserveProgram list \<Rightarrow> int \<Rightarrow> (ReserveProgram list \<times> int option) option" where
  "removeSkip_loop [] i = None"
| "removeSkip_loop (r # rs) i =
     (if id_p (program r) = i then Some (r\<lparr>isSkip := False\<rparr> # rs, ruleId r)
      else map_option (\<lambda>(rs', rid). (r # rs', rid)) (removeSkip_loop rs i))"

definition removeSkip :: "state \<Rightarrow> int \<Rightarrow> outcome" where
  "removeSkip s i =
     (if isRunning s then throws ReservationManagerIsRunning s
      else let s1 = s\<lparr>isRunning := True\<rparr>
           in case removeSkip_loop (reserves s1) i of
                None \<Rightarrow> returns s1
              | Some (rs, None) \<Rightarrow> returns (s1\<lparr>reserves := rs, isRunning := False\<rparr>)
              | Some (rs, Some rid) \<Rightarrow>
                  start (CallUpdateRule rid) (s1\<lparr>reserves := rs, isRunning := False\<rparr>))"


subsection \<open>addReserve\<close>

text \<open>
  The loop of \<^verbatim>\<open>addReserve\<close> over \<^verbatim>\<open>this.reserves\<close>: \<open>None\<close> when the program is reserved
  already (the loop throws; \<open>pid\<close> is \<^verbatim>\<open>programId\<close>), otherwise the copies of the reservations that are neither
  conflict nor skip and whose time meets that of the new reservation.
\<close>

fun overlapping ::
  "ReserveProgram list \<Rightarrow> int \<Rightarrow> ReserveProgram \<Rightarrow> ReserveProgram list option" where
  "overlapping [] pid addReserve = Some []"
| "overlapping (reserve # rs) pid addReserve =
     (if id_p (program reserve) = pid then None
      else map_option
        (\<lambda>found.
           if \<not> isConflict reserve \<and> \<not> isSkip reserve
              \<and> startAt (program reserve) \<le> endAt (program addReserve)
              \<and> endAt (program reserve) \<ge> startAt (program addReserve)
           then reserve # found else found)
        (overlapping rs pid addReserve))"

definition newManual :: "env \<Rightarrow> ProgramSchema \<Rightarrow> EncodeInterface option \<Rightarrow> ReserveProgram" where
  "newManual e p encode =
     (let addReserve = \<lparr>program = p, ruleId = None, ruleOption = None, encodeOption = None,
            isSkip = False, isManual = True, manualId = Some (getTime e),
            isConflict = False\<rparr>
      in if encode \<noteq> None then addReserve\<lparr>encodeOption := encode\<rparr> else addReserve)"

definition addReserve :: "env \<Rightarrow> state \<Rightarrow> int \<Rightarrow> EncodeInterface option \<Rightarrow> outcome" where
  "addReserve e s pid encode =
     (if isRunning s then throws ReservationManagerUpdateManualIsRunning s
      else if (case encode of None \<Rightarrow> False | Some enc \<Rightarrow> \<not> checkEncodeOption e enc)
        then throws ReservationManagerAddFailed s
      else let s1 = s\<lparr>isRunning := True\<rparr>
           in case findId e pid of
                Inl err \<Rightarrow> throws (DBError err) (finalize s1)
              | Inr [] \<Rightarrow> throws ProgramIsNotFound (finalize s1)
              | Inr (p # ps) \<Rightarrow>
                  (let added = newManual e p encode
                   in case overlapping (reserves s1) pid added of
                        None \<Rightarrow> throws ReservationManagerAddFailed (finalize s1)
                      | Some found \<Rightarrow>
                          (let (newReserves, tuners') =
                                 createReserves (tuners s1) (found @ [added]);
                               s2 = s1\<lparr>tuners := tuners'\<rparr>
                           in if list_ex isConflict newReserves
                              then throws ReservationManagerAddReserveConflict (finalize s2)
                              else returns (finalize (writeReservesFile
                                     (s2\<lparr>reserves :=
                                        array_sort byStartAt (reserves s2 @ [added])\<rparr>))))))"

subsection \<open>updateAll, updateRule\<close>

text \<open>\<^verbatim>\<open>typeof skipIndex[id] === 'undefined' ? false : skipIndex[id]\<close>\<close>

definition skipOf :: "(int \<rightharpoonup> bool) \<Rightarrow> int \<Rightarrow> bool" where
  "skipOf skipIndex i = (case skipIndex i of None \<Rightarrow> False | Some b \<Rightarrow> b)"

text \<open>The reservation that \<^verbatim>\<open>updateAll\<close> and \<^verbatim>\<open>updateRule\<close> build for a program a rule matches.\<close>

definition ruleReserve ::
  "int \<Rightarrow> OptionInterface \<Rightarrow> EncodeInterface option \<Rightarrow> (int \<rightharpoonup> bool) \<Rightarrow> ProgramSchema
     \<Rightarrow> ReserveProgram" where
  "ruleReserve rid ruleOpt encode skipIndex p =
     (let data = \<lparr>program = p, ruleId = Some rid, ruleOption = Some ruleOpt,
            encodeOption = None, isSkip = skipOf skipIndex (id_p p), isManual = False,
            manualId = None, isConflict = False\<rparr>
      in if encode \<noteq> None then data\<lparr>encodeOption := encode\<rparr> else data)"

text \<open>
  One turn of the first loop of \<^verbatim>\<open>updateAll\<close>, on (\<^verbatim>\<open>this.reserves\<close> so far, \<^verbatim>\<open>matches\<close>,
  \<^verbatim>\<open>skipIndex\<close>): the skip is recorded; a manual reservation whose program the
  catalogue still has gets that program (assigned in place, so \<^verbatim>\<open>this.reserves\<close> holds
  it too) and is pushed onto \<^verbatim>\<open>matches\<close>.
\<close>

definition manual_step ::
  "env \<Rightarrow> ReserveProgram list \<times> ReserveProgram list \<times> (int \<rightharpoonup> bool) \<Rightarrow> ReserveProgram
     \<Rightarrow> ReserveProgram list \<times> ReserveProgram list \<times> (int \<rightharpoonup> bool)" where
  "manual_step e acc reserve =
     (case acc of (seen, matches, skipIndex) \<Rightarrow>
        let skipIndex' = (if isSkip reserve
              then skipIndex(id_p (program reserve) \<mapsto> isSkip reserve) else skipIndex)
        in if \<not> isManual reserve \<or> manualId reserve = None
           then (seen @ [reserve], matches, skipIndex')
           else case findId e (id_p (program reserve)) of
                  Inl err \<Rightarrow> (seen @ [reserve], matches, skipIndex')
                | Inr [] \<Rightarrow> (seen @ [reserve], matches, skipIndex')
                | Inr (p # ps) \<Rightarrow>
                    (seen @ [reserve\<lparr>program := p\<rparr>], matches @ [reserve\<lparr>program := p\<rparr>],
                     skipIndex'))"

text \<open>One turn of the loop of \<^verbatim>\<open>updateAll\<close> over the rules: what it pushes onto \<^verbatim>\<open>matches\<close>.\<close>

definition rule_matches :: "env \<Rightarrow> (int \<rightharpoonup> bool) \<Rightarrow> RulesSchema \<Rightarrow> ReserveProgram list" where
  "rule_matches e skipIndex rule =
     (if \<not> enable rule then []
      else case findRule e (createSearchOption rule) of
             Inl err \<Rightarrow> []
           | Inr programs \<Rightarrow>
               map (ruleReserve (id_r rule) (createOption rule) (createEncodeOption rule)
                      skipIndex) programs)"

text \<open>\<^verbatim>\<open>updateAll\<close> after it has set \<^verbatim>\<open>isRunning\<close>: from its first \<^verbatim>\<open>await\<close> to its end.\<close>

definition updateAll_rest :: "env \<Rightarrow> state \<Rightarrow> outcome" where
  "updateAll_rest e s1 =
     (let (seen, matches, skipIndex) = foldl (manual_step e) ([], [], Map.empty) (reserves s1);
          s2 = s1\<lparr>reserves := seen\<rparr>
      in case findAll e of
           Inl err \<Rightarrow> throws (DBError err) s2
         | Inr rules \<Rightarrow>
             (let matches' = matches @ concat (map (rule_matches e skipIndex) rules);
                  (newReserves, tuners') = createReserves (tuners s2) matches';
                  s3 = writeReservesFile (s2\<lparr>reserves := newReserves, tuners := tuners'\<rparr>)
              in returns (s3\<lparr>isRunning := False\<rparr>)))"

definition updateAll :: "env \<Rightarrow> state \<Rightarrow> outcome" where
  "updateAll e s =
     (if isRunning s then throws ReservationManagerIsRunning s
      else updateAll_rest e (s\<lparr>isRunning := True\<rparr>))"

text \<open>The loop of \<^verbatim>\<open>updateRule\<close> over \<^verbatim>\<open>this.reserves\<close>: the skips, and the copies it keeps.\<close>

definition skips_of :: "ReserveProgram list \<Rightarrow> (int \<rightharpoonup> bool)" where
  "skips_of rs =
     foldl (\<lambda>skipIndex reserve.
              if isSkip reserve then skipIndex(id_p (program reserve) \<mapsto> isSkip reserve)
              else skipIndex) Map.empty rs"

definition others :: "ReserveProgram list \<Rightarrow> int \<Rightarrow> ReserveProgram list" where
  "others rs rid =
     map (\<lambda>reserve. reserve\<lparr>isConflict := False\<rparr>)
       (filter (\<lambda>reserve. ruleId reserve = None \<or> ruleId reserve \<noteq> Some rid) rs)"

text \<open>\<^verbatim>\<open>updateRule\<close> after it has set \<^verbatim>\<open>isRunning\<close>: from its first \<^verbatim>\<open>await\<close> to its end.\<close>

definition updateRule_rest :: "env \<Rightarrow> state \<Rightarrow> int \<Rightarrow> outcome" where
  "updateRule_rest e s1 rid =
     (case rules_findId e rid of
        Inl err \<Rightarrow> throws (DBError err) (finalize s1)
      | Inr result \<Rightarrow>
          (let rule = (case result of [] \<Rightarrow> None
                       | r # rs \<Rightarrow> if enable r then Some r else None)
           in case (case rule of None \<Rightarrow> Inr []
                    | Some r \<Rightarrow> findRule e (createSearchOption r)) of
                Inl err \<Rightarrow> throws (DBError err) (finalize s1)
              | Inr programs \<Rightarrow>
                  (let skipIndex = skips_of (reserves s1);
                       matches = others (reserves s1) rid;
                       matches' = (case rule of None \<Rightarrow> matches
                         | Some r \<Rightarrow> matches @
                             map (ruleReserve rid (createOption r)
                                   (createEncodeOption r) skipIndex) programs);
                       (newReserves, tuners') = createReserves (tuners s1) matches';
                       s2 = writeReservesFile
                              (s1\<lparr>reserves := newReserves, tuners := tuners'\<rparr>)
                   in returns (finalize s2))))"

definition updateRule :: "env \<Rightarrow> state \<Rightarrow> int \<Rightarrow> outcome" where
  "updateRule e s rid =
     (if isRunning s then throws ReservationManagerIsRunning s
      else updateRule_rest e (s\<lparr>isRunning := True\<rparr>) rid)"

subsection \<open>The public mutating operations\<close>

text \<open>
  The public operations, and \<open>Resume\<close>: the rest of a call that \<^verbatim>\<open>cancel\<close> or \<^verbatim>\<open>removeSkip\<close>
  has started, from its first \<^verbatim>\<open>await\<close> to its end, taken as one step (its error, if
  any, goes to no caller).
\<close>

datatype operation =
    SetTuners "TunerDevice list"
  | AddReserve int "EncodeInterface option"
  | Cancel int
  | RemoveSkip int
  | UpdateAll
  | UpdateRule int
  | Clean
  | Resume call

fun exec :: "env \<Rightarrow> state \<Rightarrow> operation \<Rightarrow> outcome" where
  "exec e s (SetTuners devices) = setTuners s devices"
| "exec e s (AddReserve pid encode) = addReserve e s pid encode"
| "exec e s (Cancel i) = cancel s i"
| "exec e s (RemoveSkip i) = removeSkip s i"
| "exec e s UpdateAll = updateAll e s"
| "exec e s (UpdateRule rid) = updateRule e s rid"
| "exec e s Clean = clean e s"
| "exec e s (Resume CallUpdateAll) = updateAll_rest e s"
| "exec e s (Resume (CallUpdateRule rid)) = updateRule_rest e s rid"


text \<open>
  The planner as its constructor leaves it: idle, with the reservations read from the
  file (none when there is no file), no tuners, nothing written.
\<close>

definition init :: "ReserveProgram list \<Rightarrow> state" where
  "init loaded = \<lparr>isRunning = False, reserves = loaded, tuners = [], written = []\<rparr>"

text \<open>
  A run of public operations, each with the collaborators' answers of its time; a
  thrown error is caught by the caller and the run goes on. \<open>succeeds\<close>: every
  operation of the run returns normally.
\<close>

fun run :: "state \<Rightarrow> (env \<times> operation) list \<Rightarrow> state" where
  "run s [] = s"
| "run s ((e, op) # ops) = run (post (exec e s op)) ops"

fun succeeds :: "state \<Rightarrow> (env \<times> operation) list \<Rightarrow> bool" where
  "succeeds s [] = True"
| "succeeds s ((e, op) # ops) =
     (thrown (exec e s op) = None \<and> succeeds (post (exec e s op)) ops)"

subsection \<open>Scenarios\<close>

text \<open>Concrete programs, reservations, rules and collaborators, all on channel type GR.\<close>

definition ex_program :: "int \<Rightarrow> int \<Rightarrow> int \<Rightarrow> ProgramSchema" where
  "ex_program i s e = \<lparr>id_p = i, startAt = s, endAt = e, channelType = ''GR'', name = ''P''\<rparr>"

definition ex_manual :: "int \<Rightarrow> ProgramSchema \<Rightarrow> ReserveProgram" where
  "ex_manual m p =
     \<lparr>program = p, ruleId = None, ruleOption = None, encodeOption = None, isSkip = False,
      isManual = True, manualId = Some m, isConflict = False\<rparr>"

definition ex_byRule :: "int \<Rightarrow> ProgramSchema \<Rightarrow> ReserveProgram" where
  "ex_byRule rid p =
     \<lparr>program = p, ruleId = Some rid, ruleOption = None, encodeOption = None, isSkip = False,
      isManual = False, manualId = None, isConflict = False\<rparr>"

definition ex_tuner :: Tuner where
  "ex_tuner = newTuner \<lparr>index = 0, types = [''GR'']\<rparr>"

definition ex_rule :: "int \<Rightarrow> RulesSchema" where
  "ex_rule rid =
     \<lparr>id_r = rid, week = 127, enable = True, keyword = Some ''news'', ignoreKeyword = None,
      keyCS = None, keyRegExp = None, title = Some True, description = None,
      extended = None, GR = Some True, BS = None, CS = None, SKY = None, station = None,
      genrelv1 = None, genrelv2 = None, startTime = None, timeRange = None, isFree = None,
      durationMin = None, durationMax = None, directory = None, recordedFormat = None,
      delTs = None, mode1 = None, directory1 = None, mode2 = None, directory2 = None,
      mode3 = None, directory3 = None\<rparr>"

text \<open>
  A catalogue that holds the program 1 on [100, 300) and the program 2 on [150, 250),
  one rule, 5, that matches the program 1, and the clock at 1000.
\<close>

definition ex_env :: env where
  "ex_env =
     \<lparr>findId = (\<lambda>i. if i = 1 then Inr [ex_program 1 100 300]
                     else if i = 2 then Inr [ex_program 2 150 250] else Inr []),
      findRule = (\<lambda>search. Inr [ex_program 1 100 300]),
      findAll = Inr [ex_rule 5],
      rules_findId = (\<lambda>rid. if rid = 5 then Inr [ex_rule 5] else Inr []),
      checkEncodeOption = (\<lambda>encode. True),
      getTime = 1000\<rparr>"

text \<open>The planner with one GR tuner, holding the reservations \<open>rs\<close>, idle or running.\<close>

definition ex_state :: "bool \<Rightarrow> ReserveProgram list \<Rightarrow> state" where
  "ex_state running rs = \<lparr>isRunning = running, reserves = rs, tuners = [ex_tuner], written = []\<rparr>"


text \<open>
  The same collaborators later: the catalogue has moved the program 1 to [400, 500),
  and the rule store fails.
\<close>

definition ex_env_moved :: env where
  "ex_env_moved =
     ex_env\<lparr>findId := (\<lambda>i. if i = 1 then Inr [ex_program 1 400 500]
                           else if i = 2 then Inr [ex_program 2 150 250] else Inr []),
            findAll := Inl ''rules''\<rparr>"

text \<open>
  A planner started without a file, given two GR tuners, on which the programs 1 and
  2 are reserved by hand.
\<close>

definition ex_two_manual :: state where
  "ex_two_manual =
     run (init [])
       [(ex_env, SetTuners [\<lparr>index = 0, types = [''GR'']\<rparr>, \<lparr>index = 1, types = [''GR'']\<rparr>]),
        (ex_env, AddReserve 1 None), (ex_env, AddReserve 2 None)]"

text \<open>
  Two candidates that overlap: the program 1 on [100, 300), matched by the rule 5, and
  the program 2 on [150, 250), reserved by hand; \<open>ex_sorted\<close> is the two in the
  authority order.
\<close>

definition ex_matches :: "ReserveProgram list" where
  "ex_matches = [ex_byRule 5 (ex_program 1 100 300), ex_manual 1 (ex_program 2 150 250)]"

definition ex_sorted :: "ReserveProgram list" where
  "ex_sorted = [ex_manual 1 (ex_program 2 150 250), ex_byRule 5 (ex_program 1 100 300)]"

text \<open>
  Three candidates: the program 1 matched by the rules 5 and 2, and the program 2
  reserved by hand; \<open>ex_ordered\<close> is the three in the authority order.
\<close>

definition ex_candidates :: "ReserveProgram list" where
  "ex_candidates = [ex_byRule 5 (ex_program 1 100 300), ex_manual 1 (ex_program 2 150 250),
     ex_byRule 2 (ex_program 1 100 300)]"

definition ex_ordered :: "ReserveProgram list" where
  "ex_ordered = [ex_manual 1 (ex_program 2 150 250), ex_byRule 2 (ex_program 1 100 300),
     ex_byRule 5 (ex_program 1 100 300)]"

subsection \<open>Predicates of the properties\<close>

text \<open>A list of reservations in ascending order of \<^verbatim>\<open>program.startAt\<close>.\<close>

definition sortedByStartAt :: "ReserveProgram list \<Rightarrow> bool" where
  "sortedByStartAt rs = sorted (map (\<lambda>r. startAt (program r)) rs)"

text \<open>The operations that end by sorting the list they store.\<close>

fun rebuilds :: "operation \<Rightarrow> bool" where
  "rebuilds (AddReserve pid encode) = True"
| "rebuilds UpdateAll = True"
| "rebuilds (UpdateRule rid) = True"
| "rebuilds (Resume c) = True"
| "rebuilds op = False"

text \<open>
  \<open>marked_from m r\<close>: the reservation \<open>r\<close> is \<open>m\<close> but for its conflict mark; a mark of
  \<open>m\<close> is still there, and a new one is on a reservation that is not skipped.
\<close>

definition unmark :: "ReserveProgram \<Rightarrow> ReserveProgram" where
  "unmark r = r\<lparr>isConflict := False\<rparr>"

definition marked_from :: "ReserveProgram \<Rightarrow> ReserveProgram \<Rightarrow> bool" where
  "marked_from m r =
     (unmark r = unmark m \<and> (isConflict r \<or> \<not> isConflict m)
      \<and> (isConflict m \<or> \<not> isSkip m \<or> \<not> isConflict r))"

text \<open>No reservation of the list is both skipped and in conflict.\<close>

definition noSkipConflict :: "ReserveProgram list \<Rightarrow> bool" where
  "noSkipConflict rs = list_all (\<lambda>r. \<not> (isSkip r \<and> isConflict r)) rs"

text \<open>
  The manual reservation that the first loop of \<open>updateAll\<close> pushes for \<open>r\<close>: \<open>r\<close> with
  the catalogue's program, when \<open>r\<close> is manual and the catalogue still has its program.
\<close>

definition refreshed :: "env \<Rightarrow> ReserveProgram \<Rightarrow> ReserveProgram option" where
  "refreshed e r =
     (if isManual r \<and> manualId r \<noteq> None then
        (case findId e (id_p (program r)) of
           Inr (p # ps) \<Rightarrow> Some (r\<lparr>program := p\<rparr>)
         | _ \<Rightarrow> None)
      else None)"

text \<open>
  The candidates for which the loop building \<^verbatim>\<open>list\<close> pushes events: the first of each
  program id not in \<open>programIndex\<close> already.
\<close>

fun dedup :: "ReserveProgram list \<Rightarrow> (int \<rightharpoonup> bool) \<Rightarrow> ReserveProgram list" where
  "dedup [] programIndex = []"
| "dedup (m # ms) programIndex =
     (if programIndex (id_p (program m)) = None
      then m # dedup ms (programIndex(id_p (program m) \<mapsto> True))
      else dedup ms programIndex)"

text \<open>A candidate whose origin has its identifier: a manual one \<open>manualId\<close>, a rule one \<open>ruleId\<close>.\<close>

definition hasAuthority :: "ReserveProgram \<Rightarrow> bool" where
  "hasAuthority r = (if isManual r then manualId r \<noteq> None else ruleId r \<noteq> None)"

section \<open>Properties\<close>

subsection \<open>The adapter\<close>

lemma assign_nonnull_absent:
  "upd (\<lambda>_. None) s = s \<Longrightarrow> assign_nonnull v upd s = upd (\<lambda>_. v) s"
  by (cases v) (simp_all add: assign_nonnull_def)

lemma createSearchOption_fields:
  "createSearchOption rule =
     \<lparr>week' = week rule, keyword' = keyword rule, ignoreKeyword' = ignoreKeyword rule,
      keyCS' = keyCS rule, keyRegExp' = keyRegExp rule, title' = title rule,
      description' = description rule, extended' = extended rule, GR' = GR rule,
      BS' = BS rule, CS' = CS rule, SKY' = SKY rule, station' = station rule,
      genrelv1' = genrelv1 rule, genrelv2' = genrelv2 rule, startTime' = startTime rule,
      timeRange' = timeRange rule, isFree' = isFree rule, durationMin' = durationMin rule,
      durationMax' = durationMax rule\<rparr>"
  by (simp add: createSearchOption_def assign_nonnull_absent)

lemma createOption_fields:
  "createOption rule =
     \<lparr>enable' = enable rule, directory' = directory rule,
      recordedFormat' = recordedFormat rule\<rparr>"
  by (simp add: createOption_def assign_nonnull_absent)

lemma createEncodeOption_fields:
  "createEncodeOption rule =
     (case delTs rule of
        None \<Rightarrow> None
      | Some d \<Rightarrow>
          Some \<lparr>delTs' = d, mode1' = mode1 rule, directory1' = directory1 rule,
                mode2' = mode2 rule, directory2' = directory2 rule,
                mode3' = mode3 rule, directory3' = directory3 rule\<rparr>)"
  by (simp add: createEncodeOption_def assign_nonnull_absent split: option.splits)

text \<open>
  C9. The adapter is a field-wise projection of the rule. \<open>createSearchOption\<close>
  always carries \<open>week\<close> and carries each other field exactly when the rule's field
  is not null, with the rule's value; \<open>createOption\<close> always carries \<open>enable\<close> and
  carries \<open>directory\<close> and \<open>recordedFormat\<close> exactly when they are not null;
  \<open>createEncodeOption\<close> is null exactly when \<open>delTs\<close> is null, and otherwise carries
  \<open>delTs\<close> and each mode and directory exactly when it is not null.
\<close>

theorem C9_adapter_projection:
  "createSearchOption rule =
     \<lparr>week' = week rule, keyword' = keyword rule, ignoreKeyword' = ignoreKeyword rule,
      keyCS' = keyCS rule, keyRegExp' = keyRegExp rule, title' = title rule,
      description' = description rule, extended' = extended rule, GR' = GR rule,
      BS' = BS rule, CS' = CS rule, SKY' = SKY rule, station' = station rule,
      genrelv1' = genrelv1 rule, genrelv2' = genrelv2 rule, startTime' = startTime rule,
      timeRange' = timeRange rule, isFree' = isFree rule, durationMin' = durationMin rule,
      durationMax' = durationMax rule\<rparr>
   \<and> createOption rule =
     \<lparr>enable' = enable rule, directory' = directory rule,
      recordedFormat' = recordedFormat rule\<rparr>
   \<and> (createEncodeOption rule = None) = (delTs rule = None)
   \<and> createEncodeOption rule =
     map_option (\<lambda>d. \<lparr>delTs' = d, mode1' = mode1 rule, directory1' = directory1 rule,
                       mode2' = mode2 rule, directory2' = directory2 rule,
                       mode3' = mode3 rule, directory3' = directory3 rule\<rparr>) (delTs rule)"
proof -
  have enc: "createEncodeOption rule =
     map_option (\<lambda>d. \<lparr>delTs' = d, mode1' = mode1 rule, directory1' = directory1 rule,
                       mode2' = mode2 rule, directory2' = directory2 rule,
                       mode3' = mode3 rule, directory3' = directory3 rule\<rparr>) (delTs rule)"
    by (simp add: createEncodeOption_fields split: option.splits)
  have null: "(createEncodeOption rule = None) = (delTs rule = None)"
    by (simp add: enc)
  show ?thesis
    using createSearchOption_fields [of rule] createOption_fields [of rule] enc null
    by blast
qed

subsection \<open>getReservesAllId\<close>

lemma getReservesAllId_step_item:
  "getReservesAllId_step acc r =
     (if isConflict r then acc\<lparr>conflicts := conflicts acc @ [item_of r]\<rparr>
      else if isSkip r then acc\<lparr>skips := skips acc @ [item_of r]\<rparr>
      else acc\<lparr>reserves' := reserves' acc @ [item_of r]\<rparr>)"
  by (cases "ruleId r") (simp_all add: getReservesAllId_step_def item_of_def)

lemma foldl_getReservesAllId_step:
  "foldl getReservesAllId_step acc rs =
     \<lparr>reserves' = reserves' acc
         @ map item_of (filter (\<lambda>r. \<not> isConflict r \<and> \<not> isSkip r) rs),
      conflicts = conflicts acc @ map item_of (filter isConflict rs),
      skips = skips acc @ map item_of (filter (\<lambda>r. \<not> isConflict r \<and> isSkip r) rs)\<rparr>"
proof (induction rs arbitrary: acc)
  case Nil
  show ?case by simp
next
  case (Cons r rs)
  have "foldl getReservesAllId_step acc (r # rs)
      = foldl getReservesAllId_step (getReservesAllId_step acc r) rs"
    by simp
  also note Cons.IH
  finally show ?case
    by (cases "isConflict r"; cases "isSkip r")
       (simp_all add: getReservesAllId_step_item [of acc r])
qed

text \<open>
  C10. \<open>getReservesAllId\<close> puts every reservation in exactly one of the three lists,
  in the order of the reservation list: the conflicts are the reservations with
  \<open>isConflict\<close>, whatever their \<open>isSkip\<close>; the skips are those with \<open>isSkip\<close> and
  without \<open>isConflict\<close>; the reserves are all the others. The item of a reservation
  is its program id and its \<open>ruleId\<close>, present exactly when the reservation has one.
\<close>

theorem C10_getReservesAllId_partition:
  "conflicts (getReservesAllId rs) = map item_of (filter isConflict rs)
   \<and> skips (getReservesAllId rs)
       = map item_of (filter (\<lambda>r. \<not> isConflict r \<and> isSkip r) rs)
   \<and> reserves' (getReservesAllId rs)
       = map item_of (filter (\<lambda>r. \<not> isConflict r \<and> \<not> isSkip r) rs)
   \<and> length (conflicts (getReservesAllId rs)) + length (skips (getReservesAllId rs))
       + length (reserves' (getReservesAllId rs)) = length rs
   \<and> programId (item_of r) = id_p (program r)
   \<and> ruleId' (item_of r) = ruleId r"
proof -
  have len: "length (filter isConflict rs)
      + length (filter (\<lambda>r. \<not> isConflict r \<and> isSkip r) rs)
      + length (filter (\<lambda>r. \<not> isConflict r \<and> \<not> isSkip r) rs) = length rs"
    by (induction rs) auto
  show ?thesis
    using len by (simp add: getReservesAllId_def foldl_getReservesAllId_step item_of_def)
qed

subsection \<open>Sorting\<close>

lemma insert_cmp_key:
  fixes f :: "'a \<Rightarrow> int"
  shows "insert_cmp (\<lambda>a b. f a - f b) x ys = insort_key f x ys"
  by (induction ys) auto

lemma array_sort_key:
  fixes f :: "'a \<Rightarrow> int"
  shows "array_sort (\<lambda>a b. f a - f b) xs = sort_key f xs"
  by (induction xs) (simp_all add: array_sort_def sort_key_def insert_cmp_key)

lemma mset_insert_cmp: "mset (insert_cmp cmp x ys) = add_mset x (mset ys)"
  by (induction ys) auto

lemma mset_array_sort: "mset (array_sort cmp xs) = mset xs"
  by (induction xs) (simp_all add: array_sort_def mset_insert_cmp)

lemma set_array_sort: "set (array_sort cmp xs) = set xs"
  using mset_array_sort [of cmp xs] by (metis set_mset_mset)

lemma length_array_sort: "length (array_sort cmp xs) = length xs"
  using mset_array_sort [of cmp xs] by (metis size_mset)

lemma array_sort_byStartAt: "array_sort byStartAt xs = sort_key (\<lambda>r. startAt (program r)) xs"
  using array_sort_key [of "\<lambda>r. startAt (program r)" xs] by (simp add: byStartAt_def [abs_def])

lemma sorted_array_sort_byStartAt:
  "sorted (map (\<lambda>r. startAt (program r)) (array_sort byStartAt xs))"
  by (simp add: array_sort_byStartAt)

text \<open>Sorting with a comparator that is total and transitive on the elements, which all satisfy \<open>P\<close>.\<close>

lemma sorted_wrt_insert_cmp:
  assumes tot: "\<And>a b. P a \<Longrightarrow> P b \<Longrightarrow> cmp a b \<le> 0 \<or> cmp b a \<le> 0"
    and tr: "\<And>a b c. P a \<Longrightarrow> P b \<Longrightarrow> P c \<Longrightarrow> cmp a b \<le> 0 \<Longrightarrow> cmp b c \<le> 0 \<Longrightarrow> cmp a c \<le> 0"
    and "P x" and "\<forall>y\<in>set ys. P y" and "sorted_wrt (\<lambda>a b. cmp a b \<le> 0) ys"
  shows "sorted_wrt (\<lambda>a b. cmp a b \<le> 0) (insert_cmp cmp x ys)"
  using assms(3-)
proof (induction ys)
  case Nil
  then show ?case by simp
next
  case (Cons y ys)
  show ?case
  proof (cases "cmp x y \<le> 0")
    case True
    have "cmp x z \<le> 0" if "z \<in> set ys" for z
    proof (rule tr [of x y z])
      show "P x" "P y" "P z" "cmp x y \<le> 0" "cmp y z \<le> 0"
        using Cons.prems True that by simp_all
    qed
    then have "\<forall>z\<in>set ys. cmp x z \<le> 0" by blast
    with True Cons.prems show ?thesis by simp
  next
    case False
    then have yx: "cmp y x \<le> 0" using tot [of x y] Cons.prems by auto
    have "sorted_wrt (\<lambda>a b. cmp a b \<le> 0) (insert_cmp cmp x ys)"
      using Cons by simp
    moreover have "set (insert_cmp cmp x ys) = insert x (set ys)"
      using mset_insert_cmp [of cmp x ys] by (metis set_mset_mset set_mset_add_mset_insert)
    then have "\<forall>z\<in>set (insert_cmp cmp x ys). cmp y z \<le> 0"
      using Cons.prems(3) yx by simp
    ultimately show ?thesis using False by simp
  qed
qed

lemma sorted_wrt_array_sort:
  assumes tot: "\<And>a b. P a \<Longrightarrow> P b \<Longrightarrow> cmp a b \<le> 0 \<or> cmp b a \<le> 0"
    and tr: "\<And>a b c. P a \<Longrightarrow> P b \<Longrightarrow> P c \<Longrightarrow> cmp a b \<le> 0 \<Longrightarrow> cmp b c \<le> 0 \<Longrightarrow> cmp a c \<le> 0"
    and "\<forall>x\<in>set xs. P x"
  shows "sorted_wrt (\<lambda>a b. cmp a b \<le> 0) (array_sort cmp xs)"
  using assms(3)
proof (induction xs)
  case Nil
  show ?case by (simp add: array_sort_def)
next
  case (Cons x xs)
  have "sorted_wrt (\<lambda>a b. cmp a b \<le> 0) (insert_cmp cmp x (array_sort cmp xs))"
  proof (rule sorted_wrt_insert_cmp [where P = P])
    show "P x" using Cons.prems by simp
    show "\<forall>y\<in>set (array_sort cmp xs). P y" using Cons.prems by (simp add: set_array_sort)
    show "sorted_wrt (\<lambda>a b. cmp a b \<le> 0) (array_sort cmp xs)" using Cons by simp
  qed (fact tot, fact tr)
  then show ?case by (simp add: array_sort_def)
qed

subsection \<open>The single-writer flag\<close>

text \<open>
  C3. \<open>removeSkip\<close> with a program id that matches no reservation returns normally and
  leaves \<open>isRunning\<close> set; \<open>updateAll\<close> whose \<open>rulesDB.findAll\<close> fails throws and leaves
  it set.
\<close>

theorem C3_flag_left_set:
  "\<not> isRunning (ex_state False [])
   \<and> thrown (removeSkip (ex_state False []) 7) = None
   \<and> isRunning (post (removeSkip (ex_state False []) 7))
   \<and> thrown (updateAll (ex_env\<lparr>findAll := Inl ''rules''\<rparr>) (ex_state False []))
       = Some (DBError ''rules'')
   \<and> isRunning (post (updateAll (ex_env\<lparr>findAll := Inl ''rules''\<rparr>) (ex_state False [])))"
  by (simp add: removeSkip_def start_def updateAll_def updateAll_rest_def ex_state_def ex_env_def
      returns_def throws_def)

text \<open>
  C4, as the claim states it, fails: with \<open>isRunning\<close> set, \<open>clean\<close> returns normally
  and drops a reservation that has ended, and \<open>setTuners\<close> returns normally and
  replaces the tuners.
\<close>

theorem C4_counterexample:
  "isRunning (ex_state True [ex_byRule 5 (ex_program 1 100 300)])
   \<and> thrown (exec ex_env (ex_state True [ex_byRule 5 (ex_program 1 100 300)]) Clean) = None
   \<and> reserves (post (exec ex_env (ex_state True [ex_byRule 5 (ex_program 1 100 300)]) Clean))
        = []
   \<and> thrown (exec ex_env (ex_state True [ex_byRule 5 (ex_program 1 100 300)]) (SetTuners []))
        = None
   \<and> tuners (post (exec ex_env (ex_state True [ex_byRule 5 (ex_program 1 100 300)])
        (SetTuners []))) = []
   \<and> tuners (ex_state True [ex_byRule 5 (ex_program 1 100 300)]) \<noteq> []"
  by (simp add: clean_def setTuners_def ex_state_def ex_env_def returns_def ex_byRule_def
      ex_program_def)

text \<open>
  C4, amended. When \<open>isRunning\<close> is set, \<open>cancel\<close>, \<open>removeSkip\<close>, \<open>updateAll\<close> and
  \<open>updateRule\<close> throw \<open>ReservationManagerIsRunning\<close> and \<open>addReserve\<close> throws
  \<open>ReservationManagerUpdateManualIsRunning\<close>, each leaving the state as it was;
  \<open>setTuners\<close> and \<open>clean\<close> do not read the flag: they return normally, with the tuners
  replaced and the ended reservations dropped.
\<close>

theorem C4_guarded_operations:
  assumes "isRunning s"
  shows "exec e s (Cancel i) = throws ReservationManagerIsRunning s
    \<and> exec e s (RemoveSkip i) = throws ReservationManagerIsRunning s
    \<and> exec e s UpdateAll = throws ReservationManagerIsRunning s
    \<and> exec e s (UpdateRule rid) = throws ReservationManagerIsRunning s
    \<and> exec e s (AddReserve pid encode) = throws ReservationManagerUpdateManualIsRunning s
    \<and> post (throws err s) = s \<and> thrown (throws err s) = Some err
    \<and> exec e s (SetTuners devices) = returns (s\<lparr>tuners := map newTuner devices\<rparr>)
    \<and> exec e s Clean = returns (s\<lparr>reserves :=
          filter (\<lambda>reserve. \<not> (getTime e > endAt (program reserve))) (reserves s)\<rparr>)"
  using assms
  by (simp add: cancel_def start_def removeSkip_def start_def updateAll_def updateRule_def addReserve_def
      setTuners_def clean_def throws_def)

theorem C4_guarded_operations_witness:
  "isRunning (ex_state True [])
   \<and> exec ex_env (ex_state True []) (Cancel 1)
       = throws ReservationManagerIsRunning (ex_state True [])
   \<and> exec ex_env (ex_state True []) (AddReserve 1 None)
       = throws ReservationManagerUpdateManualIsRunning (ex_state True [])"
proof -
  have r: "isRunning (ex_state True [])" by (simp add: ex_state_def)
  show ?thesis
    using r C4_guarded_operations [OF r, of ex_env 1 1 1 None ReservationManagerIsRunning "[]"]
    by simp
qed

subsection \<open>The resolver keeps its candidates but for their conflict marks\<close>

lemma marked_from_refl: "marked_from m m"
  by (auto simp: marked_from_def)

lemma marked_from_trans: "marked_from a b \<Longrightarrow> marked_from b c \<Longrightarrow> marked_from a c"
  by (auto simp: marked_from_def unmark_def) (metis ReserveProgram.select_convs(5) ReserveProgram.surjective ReserveProgram.update_convs(8))+

lemma marked_from_fields:
  assumes "marked_from m r"
  shows "program r = program m" "isSkip r = isSkip m" "isManual r = isManual m"
    "manualId r = manualId m" "ruleId r = ruleId m"
    "r = m\<lparr>isConflict := isConflict r\<rparr>"
proof -
  have "unmark r = unmark m" using assms by (simp add: marked_from_def)
  then have e: "r\<lparr>isConflict := False\<rparr> = m\<lparr>isConflict := False\<rparr>" by (simp add: unmark_def)
  from e have "program (r\<lparr>isConflict := False\<rparr>) = program (m\<lparr>isConflict := False\<rparr>)" by simp
  then show "program r = program m" by simp
  from e have "isSkip (r\<lparr>isConflict := False\<rparr>) = isSkip (m\<lparr>isConflict := False\<rparr>)" by simp
  then show "isSkip r = isSkip m" by simp
  from e have "isManual (r\<lparr>isConflict := False\<rparr>) = isManual (m\<lparr>isConflict := False\<rparr>)" by simp
  then show "isManual r = isManual m" by simp
  from e have "manualId (r\<lparr>isConflict := False\<rparr>) = manualId (m\<lparr>isConflict := False\<rparr>)" by simp
  then show "manualId r = manualId m" by simp
  from e have "ruleId (r\<lparr>isConflict := False\<rparr>) = ruleId (m\<lparr>isConflict := False\<rparr>)" by simp
  then show "ruleId r = ruleId m" by simp
  from e have "(r\<lparr>isConflict := False\<rparr>)\<lparr>isConflict := isConflict r\<rparr>
      = (m\<lparr>isConflict := False\<rparr>)\<lparr>isConflict := isConflict r\<rparr>" by simp
  then show "r = m\<lparr>isConflict := isConflict r\<rparr>" by simp
qed

lemma marked_from_mark:
  "\<not> isSkip m \<Longrightarrow> marked_from m (m\<lparr>isConflict := True\<rparr>)"
  by (simp add: marked_from_def unmark_def)

lemma list_all2_marked_update:
  assumes "\<not> isSkip (m ! r)"
  shows "list_all2 marked_from m (m[r := (m ! r)\<lparr>isConflict := True\<rparr>])"
proof -
  have "list_all2 marked_from (m[r := m ! r]) (m[r := (m ! r)\<lparr>isConflict := True\<rparr>])"
    by (rule list_all2_update_cong)
       (simp_all add: list_all2_refl marked_from_refl marked_from_mark assms)
  then show ?thesis by simp
qed

lemma list_all2_marked_trans:
  "list_all2 marked_from a b \<Longrightarrow> list_all2 marked_from b c \<Longrightarrow> list_all2 marked_from a c"
  using list_all2_trans [of marked_from marked_from marked_from a b c] marked_from_trans
  by blast

lemma evaluate_marked: "list_all2 marked_from m (fst (evaluate rs m ts))"
proof (induction rs m ts rule: evaluate.induct)
  case (1 matches tuners)
  show ?case by (simp add: list_all2_refl marked_from_refl)
next
  case (2 r rs matches tuners)
  show ?case
  proof (cases "isSkip (matches ! r)")
    case True
    with 2 show ?thesis by simp
  next
    case False
    show ?thesis
    proof (cases "tryTuners tuners (program (matches ! r))")
      case None
      have "list_all2 marked_from (matches[r := (matches ! r)\<lparr>isConflict := True\<rparr>])
          (fst (evaluate rs (matches[r := (matches ! r)\<lparr>isConflict := True\<rparr>]) tuners))"
        using 2(2) [OF False None] .
      then have "list_all2 marked_from matches
          (fst (evaluate rs (matches[r := (matches ! r)\<lparr>isConflict := True\<rparr>]) tuners))"
        using list_all2_marked_trans list_all2_marked_update [OF False] by blast
      then show ?thesis using False None by simp
    next
      case (Some ts')
      with 2(3) [OF False Some] False show ?thesis by simp
    qed
  qed
qed

lemma sweep_event_marked:
  "list_all2 marked_from (fst s) (fst (sweep_event s l))"
proof (cases s)
  case (fields matches reserves tuners)
  show ?thesis
  proof (cases "isSkip (matches ! idx l)")
    case True
    then show ?thesis by (simp add: fields sweep_event_def list_all2_refl marked_from_refl)
  next
    case False
    then show ?thesis
      using evaluate_marked [of matches "active_after matches reserves l" "map clear tuners"]
      by (simp add: fields sweep_event_def Let_def case_prod_beta)
  qed
qed

lemma foldl_sweep_event_marked:
  "list_all2 marked_from (fst s) (fst (foldl sweep_event s ls))"
proof (induction ls arbitrary: s)
  case Nil
  show ?case by (simp add: list_all2_refl marked_from_refl)
next
  case (Cons l ls)
  show ?case
    using list_all2_marked_trans [OF sweep_event_marked [of s l] Cons [of "sweep_event s l"]]
    by simp
qed

subsection \<open>The events and the result of createReserves\<close>

lemma make_list_idx:
  "l \<in> set (make_list ms k pidx) \<Longrightarrow> k \<le> idx l \<and> idx l < k + length ms"
proof (induction ms arbitrary: k pidx)
  case Nil
  then show ?case by simp
next
  case (Cons m ms)
  show ?case
  proof (cases "pidx (id_p (program m)) = None")
    case True
    with Cons.prems have "idx l = k \<or> l \<in> set (make_list ms (Suc k) (pidx(id_p (program m) \<mapsto> True)))"
      by auto
    then show ?thesis using Cons.IH by fastforce
  next
    case False
    with Cons.prems have "l \<in> set (make_list ms (Suc k) pidx)" by auto
    then show ?thesis using Cons.IH by fastforce
  qed
qed

lemma event_list_idx: "l \<in> set (event_list ms) \<Longrightarrow> idx l < length ms"
  using make_list_idx [of l ms 0 Map.empty] by (simp add: event_list_def set_array_sort)

lemma fst_createReserves:
  "fst (createReserves ts ms) =
     array_sort byStartAt
       (map (\<lambda>l. fst (foldl sweep_event (array_sort sortReserveProgram ms, [], ts)
                        (event_list (array_sort sortReserveProgram ms))) ! idx l)
          (filter isStart (event_list (array_sort sortReserveProgram ms))))"
  by (simp add: createReserves_def Let_def case_prod_beta)

lemma createReserves_marked:
  assumes "r \<in> set (fst (createReserves ts ms))"
  shows "\<exists>m\<in>set ms. marked_from m r"
proof -
  let ?S = "array_sort sortReserveProgram ms"
  let ?M = "fst (foldl sweep_event (?S, [], ts) (event_list ?S))"
  from assms obtain l where l: "l \<in> set (event_list ?S)" and r: "r = ?M ! idx l"
    by (auto simp: fst_createReserves set_array_sort)
  have i: "idx l < length ?S" using l by (rule event_list_idx)
  have "list_all2 marked_from ?S ?M"
    using foldl_sweep_event_marked [of "(?S, [], ts)" "event_list ?S"] by simp
  then have "marked_from (?S ! idx l) (?M ! idx l)"
    using i by (simp add: list_all2_nthD)
  moreover have "?S ! idx l \<in> set ms"
    using i nth_mem [of "idx l" ?S] by (simp add: set_array_sort)
  ultimately show ?thesis using r by blast
qed

lemma createReserves_sorted: "sortedByStartAt (fst (createReserves ts ms))"
  by (simp add: fst_createReserves sortedByStartAt_def sorted_array_sort_byStartAt)

lemma createReserves_noSkipConflict:
  assumes "noSkipConflict ms"
  shows "noSkipConflict (fst (createReserves ts ms))"
proof -
  have "\<not> (isSkip r \<and> isConflict r)" if "r \<in> set (fst (createReserves ts ms))" for r
  proof -
    from createReserves_marked [OF that] obtain m where m: "m \<in> set ms" "marked_from m r"
      by blast
    have "\<not> (isSkip m \<and> isConflict m)"
      using assms m(1) by (simp add: noSkipConflict_def list_all_iff)
    then show ?thesis
      using m(2) marked_from_fields(2) [OF m(2)] by (auto simp: marked_from_def)
  qed
  then show ?thesis by (simp add: noSkipConflict_def list_all_iff)
qed

subsection \<open>What each operation leaves in the reservation list\<close>

lemma foldl_manual_step:
  "foldl (manual_step e) (seen, ms, sk) rs =
     (seen @ map (\<lambda>r. case refreshed e r of Some r' \<Rightarrow> r' | None \<Rightarrow> r) rs,
      ms @ List.map_filter (refreshed e) rs,
      snd (snd (foldl (manual_step e) (seen, ms, sk) rs)))"
proof (induction rs arbitrary: seen ms sk)
  case Nil
  show ?case by (simp add: List.map_filter_simps)
next
  case (Cons r rs)
  obtain seen' ms' sk' where step: "manual_step e (seen, ms, sk) r = (seen', ms', sk')"
    by (cases "manual_step e (seen, ms, sk) r") auto
  have seen': "seen' = seen @ [case refreshed e r of Some r' \<Rightarrow> r' | None \<Rightarrow> r]"
    and ms': "ms' = ms @ (case refreshed e r of Some r' \<Rightarrow> [r'] | None \<Rightarrow> [])"
    using step
    by (auto simp: manual_step_def refreshed_def Let_def split: if_splits sum.splits list.splits)
  show ?case
    using Cons.IH [of seen' ms' sk']
    by (simp add: step seen' ms' split: option.splits)
qed

lemma foldl_manual_step_skip:
  "skipOf (snd (snd (foldl (manual_step e) (seen, ms, sk) rs))) i =
     (skipOf sk i \<or> (\<exists>r\<in>set rs. isSkip r \<and> id_p (program r) = i))"
proof (induction rs arbitrary: seen ms sk)
  case Nil
  show ?case by simp
next
  case (Cons r rs)
  obtain seen' ms' sk' where step: "manual_step e (seen, ms, sk) r = (seen', ms', sk')"
    by (cases "manual_step e (seen, ms, sk) r") auto
  have sk': "sk' = (if isSkip r then sk(id_p (program r) \<mapsto> isSkip r) else sk)"
    using step
    by (auto simp: manual_step_def Let_def split: if_splits sum.splits list.splits)
  have "skipOf sk' i = (skipOf sk i \<or> (isSkip r \<and> id_p (program r) = i))"
    by (auto simp: sk' skipOf_def)
  then show ?case
    using Cons.IH [of seen' ms' sk'] by (auto simp: step)
qed

lemma updateAll_rest_cases:
  obtains (failed) err where "findAll e = Inl err"
      "thrown (updateAll_rest e s) = Some (DBError err)"
      "reserves (post (updateAll_rest e s))
         = map (\<lambda>r. case refreshed e r of Some r' \<Rightarrow> r' | None \<Rightarrow> r) (reserves s)"
      "isRunning (post (updateAll_rest e s)) = isRunning s"
  | (completed) rules sk where "findAll e = Inr rules"
      "thrown (updateAll_rest e s) = None"
      "\<forall>i. skipOf sk i = (\<exists>r\<in>set (reserves s). isSkip r \<and> id_p (program r) = i)"
      "reserves (post (updateAll_rest e s))
         = fst (createReserves (tuners s)
             (List.map_filter (refreshed e) (reserves s)
              @ concat (map (rule_matches e sk) rules)))"
      "\<not> isRunning (post (updateAll_rest e s))"
proof -
  let ?F = "foldl (manual_step e) ([], [], Map.empty) (reserves s)"
  have F: "?F = (map (\<lambda>r. case refreshed e r of Some r' \<Rightarrow> r' | None \<Rightarrow> r) (reserves s),
      List.map_filter (refreshed e) (reserves s), snd (snd ?F))"
    using foldl_manual_step [of e "[]" "[]" Map.empty "reserves s"] by simp
  have F1: "fst ?F = map (\<lambda>r. case refreshed e r of Some r' \<Rightarrow> r' | None \<Rightarrow> r) (reserves s)"
    by (subst F) (simp only: fst_conv)
  have F2: "fst (snd ?F) = List.map_filter (refreshed e) (reserves s)"
    by (subst F) (simp only: fst_conv snd_conv)
  have sk: "\<forall>i. skipOf (snd (snd ?F)) i
      = (\<exists>r\<in>set (reserves s). isSkip r \<and> id_p (program r) = i)"
    using foldl_manual_step_skip [of e "[]" "[]" Map.empty "reserves s"]
    by (simp add: skipOf_def)
  show ?thesis
  proof (cases "findAll e")
    case (Inl err)
    have "thrown (updateAll_rest e s) = Some (DBError err)"
      by (simp add: updateAll_rest_def Inl throws_def case_prod_beta)
    moreover have "reserves (post (updateAll_rest e s))
         = map (\<lambda>r. case refreshed e r of Some r' \<Rightarrow> r' | None \<Rightarrow> r) (reserves s)"
      by (simp add: updateAll_rest_def Inl throws_def case_prod_beta F1)
    moreover have "isRunning (post (updateAll_rest e s)) = isRunning s"
      by (simp add: updateAll_rest_def Inl throws_def case_prod_beta)
    ultimately show ?thesis using failed Inl by blast
  next
    case (Inr rules)
    have "thrown (updateAll_rest e s) = None"
      by (simp add: updateAll_rest_def Inr returns_def case_prod_beta Let_def)
    moreover have "reserves (post (updateAll_rest e s))
         = fst (createReserves (tuners s)
             (List.map_filter (refreshed e) (reserves s)
              @ concat (map (rule_matches e (snd (snd ?F))) rules)))"
      by (simp add: updateAll_rest_def Inr returns_def writeReservesFile_def
          case_prod_beta Let_def F2)
    moreover have "\<not> isRunning (post (updateAll_rest e s))"
      by (simp add: updateAll_rest_def Inr returns_def writeReservesFile_def
          case_prod_beta Let_def)
    ultimately show ?thesis using completed Inr sk by blast
  qed
qed

lemma updateAll_cases:
  obtains (busy) "isRunning s" "updateAll e s = throws ReservationManagerIsRunning s"
  | (failed) err where "\<not> isRunning s" "findAll e = Inl err"
      "thrown (updateAll e s) = Some (DBError err)"
      "reserves (post (updateAll e s))
         = map (\<lambda>r. case refreshed e r of Some r' \<Rightarrow> r' | None \<Rightarrow> r) (reserves s)"
  | (completed) rules sk where "\<not> isRunning s" "findAll e = Inr rules"
      "thrown (updateAll e s) = None"
      "\<forall>i. skipOf sk i = (\<exists>r\<in>set (reserves s). isSkip r \<and> id_p (program r) = i)"
      "reserves (post (updateAll e s))
         = fst (createReserves (tuners s)
             (List.map_filter (refreshed e) (reserves s)
              @ concat (map (rule_matches e sk) rules)))"
      "\<not> isRunning (post (updateAll e s))"
proof (cases "isRunning s")
  case True
  then show ?thesis using busy by (simp add: updateAll_def)
next
  case idle: False
  then have u: "updateAll e s = updateAll_rest e (s\<lparr>isRunning := True\<rparr>)"
    by (simp add: updateAll_def)
  show ?thesis
  proof (cases rule: updateAll_rest_cases [where e = e and s = "s\<lparr>isRunning := True\<rparr>"])
    case (failed err)
    show ?thesis by (rule that(2) [of err]) (use failed idle in \<open>simp_all add: u\<close>)
  next
    case (completed rules sk)
    show ?thesis by (rule that(3) [of rules sk]) (use completed idle in \<open>simp_all add: u\<close>)
  qed
qed

lemma refreshed_fields:
  assumes "refreshed e r = Some r'"
  shows "isSkip r' = isSkip r" "isConflict r' = isConflict r" "isManual r' = isManual r"
    "\<exists>p ps. findId e (id_p (program r)) = Inr (p # ps) \<and> r' = r\<lparr>program := p\<rparr>"
  using assms
  by (auto simp: refreshed_def split: if_splits sum.splits list.splits)

lemma ruleReserve_fields:
  "program (ruleReserve rid ro enc sk p) = p"
  "isSkip (ruleReserve rid ro enc sk p) = skipOf sk (id_p p)"
  "isConflict (ruleReserve rid ro enc sk p) = False"
  "isManual (ruleReserve rid ro enc sk p) = False"
  "ruleId (ruleReserve rid ro enc sk p) = Some rid"
  by (simp_all add: ruleReserve_def Let_def)

lemma rule_matches_fields:
  assumes "m \<in> set (rule_matches e sk rule)"
  shows "\<not> isConflict m" "isSkip m = skipOf sk (id_p (program m))" "\<not> isManual m"
  using assms
  by (auto simp: rule_matches_def ruleReserve_fields split: if_splits sum.splits)

lemma updateRule_rest_cases:
  obtains (failed) err where "thrown (updateRule_rest e s rid) = Some (DBError err)"
      "post (updateRule_rest e s rid) = s\<lparr>isRunning := False\<rparr>"
  | (completed) ms where "thrown (updateRule_rest e s rid) = None"
      "reserves (post (updateRule_rest e s rid))
         = fst (createReserves (tuners s) (others (reserves s) rid @ ms))"
      "\<forall>m\<in>set ms. \<not> isConflict m"
      "\<not> isRunning (post (updateRule_rest e s rid))"
proof (cases "rules_findId e rid")
  case (Inl err)
  show ?thesis
    by (rule failed [of err])
       (simp_all add: updateRule_rest_def Inl throws_def finalize_def)
next
  case (Inr result)
  define rule where "rule = (case result of [] \<Rightarrow> None
                             | r # rs \<Rightarrow> if enable r then Some r else None)"
  show ?thesis
  proof (cases "case rule of None \<Rightarrow> Inr [] | Some r \<Rightarrow> findRule e (createSearchOption r)")
    case (Inl err)
    show ?thesis
      by (rule failed [of err])
         (use Inl in \<open>simp_all add: updateRule_rest_def Inr throws_def finalize_def
            rule_def [symmetric] Let_def\<close>)
  next
    case progs: (Inr programs)
    define ms where "ms = (case rule of None \<Rightarrow> []
        | Some r \<Rightarrow> map (ruleReserve rid (createOption r) (createEncodeOption r)
                            (skips_of (reserves s))) programs)"
    have M: "(case rule of None \<Rightarrow> others (reserves s) rid
        | Some r \<Rightarrow> others (reserves s) rid @
            map (ruleReserve rid (createOption r) (createEncodeOption r)
                  (skips_of (reserves s))) programs) = others (reserves s) rid @ ms"
      by (simp add: ms_def split: option.splits)
    show ?thesis
    proof (rule completed [of ms])
      show "thrown (updateRule_rest e s rid) = None"
        using progs
        by (simp add: updateRule_rest_def Inr returns_def rule_def [symmetric] Let_def
            case_prod_beta)
      show "reserves (post (updateRule_rest e s rid))
          = fst (createReserves (tuners s) (others (reserves s) rid @ ms))"
        using progs
        by (simp add: updateRule_rest_def Inr returns_def rule_def [symmetric] Let_def
            case_prod_beta finalize_def writeReservesFile_def M cong: option.case_cong)
      show "\<forall>m\<in>set ms. \<not> isConflict m"
        by (auto simp: ms_def ruleReserve_fields split: option.splits)
      show "\<not> isRunning (post (updateRule_rest e s rid))"
        using progs
        by (simp add: updateRule_rest_def Inr returns_def rule_def [symmetric] Let_def
            case_prod_beta finalize_def writeReservesFile_def)
    qed
  qed
qed

lemma updateRule_cases:
  obtains (busy) "isRunning s" "updateRule e s rid = throws ReservationManagerIsRunning s"
  | (failed) err where "\<not> isRunning s" "thrown (updateRule e s rid) = Some (DBError err)"
      "post (updateRule e s rid) = s"
  | (completed) ms where "\<not> isRunning s" "thrown (updateRule e s rid) = None"
      "reserves (post (updateRule e s rid))
         = fst (createReserves (tuners s) (others (reserves s) rid @ ms))"
      "\<forall>m\<in>set ms. \<not> isConflict m"
      "\<not> isRunning (post (updateRule e s rid))"
proof (cases "isRunning s")
  case True
  then show ?thesis using busy by (simp add: updateRule_def)
next
  case idle: False
  then have u: "updateRule e s rid = updateRule_rest e (s\<lparr>isRunning := True\<rparr>) rid"
    by (simp add: updateRule_def)
  show ?thesis
  proof (cases rule: updateRule_rest_cases
      [where e = e and s = "s\<lparr>isRunning := True\<rparr>" and rid = rid])
    case (failed err)
    show ?thesis by (rule that(2) [of err]) (use failed idle in \<open>simp_all add: u\<close>)
  next
    case (completed ms)
    show ?thesis by (rule that(3) [of ms]) (use completed idle in \<open>simp_all add: u\<close>)
  qed
qed

lemma addReserve_reserves:
  "(thrown (addReserve e s pid encode) \<noteq> None
      \<and> reserves (post (addReserve e s pid encode)) = reserves s)
   \<or> (thrown (addReserve e s pid encode) = None
      \<and> (\<exists>p. reserves (post (addReserve e s pid encode))
            = array_sort byStartAt (reserves s @ [newManual e p encode])))"
  by (auto simp: addReserve_def throws_def returns_def finalize_def writeReservesFile_def
      Let_def case_prod_beta split: option.splits sum.splits list.splits)

lemma newManual_fields:
  "program (newManual e p encode) = p" "\<not> isSkip (newManual e p encode)"
  "\<not> isConflict (newManual e p encode)" "isManual (newManual e p encode)"
  "manualId (newManual e p encode) = Some (getTime e)"
  by (simp_all add: newManual_def Let_def)

lemma cancel_loop_elems:
  assumes "cancel_loop rs i = Some rs'" "r' \<in> set rs'"
  shows "\<exists>r\<in>set rs. program r' = program r \<and> \<not> (isSkip r' \<and> isConflict r')
            \<or> r' = r"
  using assms
proof (induction rs arbitrary: rs')
  case Nil
  then show ?case by simp
next
  case (Cons a rs)
  show ?case
  proof (cases "id_p (program a) = i")
    case True
    with Cons.prems show ?thesis by (cases "isManual a") auto
  next
    case False
    with Cons.prems obtain rs'' where c: "cancel_loop rs i = Some rs''" and rs': "rs' = a # rs''"
      by auto
    show ?thesis
    proof (cases "r' = a")
      case True
      then show ?thesis by auto
    next
      case False
      with Cons.prems(2) rs' have "r' \<in> set rs''" by simp
      from Cons.IH [OF c this] show ?thesis by auto
    qed
  qed
qed

lemma cancel_loop_startAt:
  assumes "cancel_loop rs i = Some rs'" "sortedByStartAt rs"
  shows "sortedByStartAt rs' \<and> set (map (\<lambda>r. startAt (program r)) rs')
            \<subseteq> set (map (\<lambda>r. startAt (program r)) rs)"
  using assms
proof (induction rs arbitrary: rs')
  case Nil
  then show ?case by simp
next
  case (Cons a rs)
  show ?case
  proof (cases "id_p (program a) = i")
    case True
    with Cons.prems show ?thesis
      by (cases "isManual a") (auto simp: sortedByStartAt_def)
  next
    case False
    with Cons.prems obtain rs'' where c: "cancel_loop rs i = Some rs''" and rs': "rs' = a # rs''"
      by auto
    have "sortedByStartAt rs" using Cons.prems(2) by (simp add: sortedByStartAt_def)
    from Cons.IH [OF c this] show ?thesis
      using Cons.prems(2) rs' by (auto simp: sortedByStartAt_def)
  qed
qed

lemma removeSkip_loop_elems:
  assumes "removeSkip_loop rs i = Some (rs', rid)"
  shows "map program rs' = map program rs
    \<and> (\<forall>r'\<in>set rs'. \<exists>r\<in>set rs. r' = r \<or> \<not> isSkip r')"
  using assms
proof (induction rs arbitrary: rs')
  case Nil
  then show ?case by simp
next
  case (Cons a rs)
  show ?case
  proof (cases "id_p (program a) = i")
    case True
    with Cons.prems show ?thesis by auto
  next
    case False
    with Cons.prems obtain rs'' where c: "removeSkip_loop rs i = Some (rs'', rid)"
      and rs': "rs' = a # rs''"
      by auto
    from Cons.IH [OF c] show ?thesis using rs' by auto
  qed
qed

subsection \<open>Skip and conflict exclude each other\<close>

lemma noSkipConflict_iff: "noSkipConflict rs = (\<forall>r\<in>set rs. \<not> (isSkip r \<and> isConflict r))"
  by (simp add: noSkipConflict_def list_all_iff)

lemma set_map_filter: "set (List.map_filter f xs) = {y. \<exists>x\<in>set xs. f x = Some y}"
  by (induction xs) (auto simp: List.map_filter_simps split: option.splits)

lemma updateAll_rest_noSkipConflict:
  assumes "noSkipConflict (reserves s)"
  shows "noSkipConflict (reserves (post (updateAll_rest e s)))"
proof (cases rule: updateAll_rest_cases [where s = s and e = e])
  case (failed err)
  have "\<not> (isSkip r' \<and> isConflict r')"
    if "r' \<in> set (map (\<lambda>r. case refreshed e r of Some r' \<Rightarrow> r' | None \<Rightarrow> r) (reserves s))" for r'
  proof -
    from that obtain r where r: "r \<in> set (reserves s)"
      and r': "r' = (case refreshed e r of Some r' \<Rightarrow> r' | None \<Rightarrow> r)" by auto
    have "isSkip r' = isSkip r \<and> isConflict r' = isConflict r"
      using r' refreshed_fields(1,2) [of e r] by (cases "refreshed e r") auto
    then show ?thesis using assms r by (simp add: noSkipConflict_iff)
  qed
  then show ?thesis using failed(3) by (simp add: noSkipConflict_iff)
next
  case (completed rules sk)
  have "noSkipConflict (List.map_filter (refreshed e) (reserves s)
              @ concat (map (rule_matches e sk) rules))"
    unfolding noSkipConflict_iff
  proof
    fix m
    assume "m \<in> set (List.map_filter (refreshed e) (reserves s)
              @ concat (map (rule_matches e sk) rules))"
    then consider (manual) r where "r \<in> set (reserves s)" "refreshed e r = Some m"
      | (rule) rule where "m \<in> set (rule_matches e sk rule)"
      by (auto simp: set_map_filter)
    then show "\<not> (isSkip m \<and> isConflict m)"
    proof cases
      case manual
      then show ?thesis
        using assms refreshed_fields(1,2) [OF manual(2)] by (simp add: noSkipConflict_iff)
    next
      case rule
      then show ?thesis using rule_matches_fields(1) by blast
    qed
  qed
  then show ?thesis using completed(4) createReserves_noSkipConflict by simp
qed

lemma updateAll_noSkipConflict:
  assumes "noSkipConflict (reserves s)"
  shows "noSkipConflict (reserves (post (updateAll e s)))"
proof (cases "isRunning s")
  case True
  then show ?thesis using assms by (simp add: updateAll_def throws_def)
next
  case False
  then show ?thesis
    using updateAll_rest_noSkipConflict [of "s\<lparr>isRunning := True\<rparr>" e] assms
    by (simp add: updateAll_def)
qed

lemma updateRule_rest_noSkipConflict:
  assumes "noSkipConflict (reserves s)"
  shows "noSkipConflict (reserves (post (updateRule_rest e s rid)))"
proof (cases rule: updateRule_rest_cases [where s = s and e = e and rid = rid])
  case (failed err)
  then show ?thesis using assms by simp
next
  case (completed ms)
  have "noSkipConflict (others (reserves s) rid @ ms)"
    using completed(3) by (auto simp: noSkipConflict_iff others_def)
  then show ?thesis using completed(2) createReserves_noSkipConflict by simp
qed

lemma updateRule_noSkipConflict:
  assumes "thrown (updateRule e s rid) = None \<or> noSkipConflict (reserves s)"
  shows "noSkipConflict (reserves (post (updateRule e s rid)))"
proof (cases rule: updateRule_cases [where s = s and e = e and rid = rid])
  case busy
  then show ?thesis using assms by (simp add: throws_def)
next
  case (failed err)
  then show ?thesis using assms by simp
next
  case (completed ms)
  have "noSkipConflict (others (reserves s) rid @ ms)"
    using completed(4) by (auto simp: noSkipConflict_iff others_def)
  then show ?thesis using completed(3) createReserves_noSkipConflict by simp
qed

lemma addReserve_noSkipConflict:
  assumes "noSkipConflict (reserves s)"
  shows "noSkipConflict (reserves (post (addReserve e s pid encode)))"
  using addReserve_reserves [of e s pid encode] assms
  by (auto simp: noSkipConflict_iff set_array_sort newManual_fields)

lemma cancel_noSkipConflict:
  assumes "noSkipConflict (reserves s)"
  shows "noSkipConflict (reserves (post (cancel s i)))"
proof (cases "cancel_loop (reserves s) i")
  case None
  then show ?thesis using assms by (simp add: cancel_def start_def throws_def returns_def)
next
  case (Some rs')
  have "noSkipConflict rs'"
    unfolding noSkipConflict_iff
  proof
    fix r' assume "r' \<in> set rs'"
    from cancel_loop_elems [OF Some this] show "\<not> (isSkip r' \<and> isConflict r')"
      using assms by (auto simp: noSkipConflict_iff)
  qed
  then show ?thesis
    using assms Some by (simp add: cancel_def start_def throws_def returns_def writeReservesFile_def)
qed

lemma removeSkip_noSkipConflict:
  assumes "noSkipConflict (reserves s)"
  shows "noSkipConflict (reserves (post (removeSkip s i)))"
proof (cases "removeSkip_loop (reserves s) i")
  case None
  then show ?thesis using assms by (simp add: removeSkip_def start_def throws_def returns_def)
next
  case (Some a)
  obtain rs' rid where a: "a = (rs', rid)" by (cases a) auto
  have "noSkipConflict rs'"
    using removeSkip_loop_elems [of "reserves s" i rs' rid] Some a assms
    by (auto simp: noSkipConflict_iff)
  then show ?thesis
    using assms Some a
    by (simp add: removeSkip_def start_def throws_def returns_def split: option.splits)
qed

lemma exec_noSkipConflict:
  assumes "noSkipConflict (reserves s)"
  shows "noSkipConflict (reserves (post (exec e s op)))"
proof (cases op)
  case (SetTuners devices)
  then show ?thesis using assms by (simp add: setTuners_def returns_def)
next
  case (AddReserve pid encode)
  then show ?thesis using addReserve_noSkipConflict [OF assms] by simp
next
  case (Cancel i)
  then show ?thesis using cancel_noSkipConflict [OF assms] by simp
next
  case (RemoveSkip i)
  then show ?thesis using removeSkip_noSkipConflict [OF assms] by simp
next
  case UpdateAll
  then show ?thesis using updateAll_noSkipConflict [OF assms] by simp
next
  case (UpdateRule rid)
  then show ?thesis using updateRule_noSkipConflict [of e s rid] assms by simp
next
  case Clean
  then show ?thesis using assms by (auto simp: clean_def returns_def noSkipConflict_iff)
next
  case (Resume c)
  show ?thesis
  proof (cases c)
    case CallUpdateAll
    then show ?thesis using Resume updateAll_rest_noSkipConflict [OF assms] by simp
  next
    case (CallUpdateRule rid)
    then show ?thesis using Resume updateRule_rest_noSkipConflict [OF assms] by simp
  qed
qed

lemma run_noSkipConflict:
  "noSkipConflict (reserves s) \<Longrightarrow> noSkipConflict (reserves (run s ops))"
proof (induction ops arbitrary: s)
  case Nil
  then show ?case by simp
next
  case (Cons a ops)
  obtain e op where a: "a = (e, op)" by (cases a) auto
  show ?case
    using Cons.IH [OF exec_noSkipConflict [OF Cons.prems, of e op]] by (simp add: a)
qed

text \<open>
  C7. If no reservation of the planner is both skipped and in conflict, then none is
  after any public operation (\<open>setTuners\<close>, \<open>addReserve\<close>, \<open>cancel\<close>, \<open>removeSkip\<close>,
  \<open>updateAll\<close>, \<open>updateRule\<close>, \<open>clean\<close>), whether it returns or throws, and so after
  any run of them; in particular after any run from the planner that starts with no
  reservations.
\<close>

theorem C7_skip_conflict_exclusive:
  assumes "noSkipConflict (reserves s)"
  shows "noSkipConflict (reserves (post (exec e s op)))
    \<and> noSkipConflict (reserves (run s ops))
    \<and> noSkipConflict (reserves (run (init []) ops))"
proof -
  have "noSkipConflict (reserves (init []))" by (simp add: init_def noSkipConflict_def)
  then show ?thesis
    using exec_noSkipConflict [OF assms] run_noSkipConflict [OF assms] run_noSkipConflict
    by blast
qed

theorem C7_skip_conflict_exclusive_witness:
  "noSkipConflict (reserves (ex_state False [(ex_byRule 5 (ex_program 1 100 300))\<lparr>isSkip := True\<rparr>,
       ex_manual 3 (ex_program 2 150 250)]))
   \<and> thrown (exec ex_env (ex_state False [(ex_byRule 5 (ex_program 1 100 300))\<lparr>isSkip := True\<rparr>,
       ex_manual 3 (ex_program 2 150 250)]) UpdateAll) = None
   \<and> noSkipConflict (reserves (post (exec ex_env
       (ex_state False [(ex_byRule 5 (ex_program 1 100 300))\<lparr>isSkip := True\<rparr>,
          ex_manual 3 (ex_program 2 150 250)]) UpdateAll)))"
proof -
  let ?s = "ex_state False [(ex_byRule 5 (ex_program 1 100 300))\<lparr>isSkip := True\<rparr>,
       ex_manual 3 (ex_program 2 150 250)]"
  have h: "noSkipConflict (reserves ?s)"
    by (simp add: noSkipConflict_def ex_state_def ex_byRule_def ex_manual_def)
  have t: "thrown (exec ex_env ?s UpdateAll) = None"
    by (cases rule: updateAll_cases [where s = ?s and e = ex_env])
       (simp_all add: ex_state_def ex_env_def)
  have p: "noSkipConflict (reserves (post (exec ex_env ?s UpdateAll)))"
    using C7_skip_conflict_exclusive [OF h, of ex_env UpdateAll] by blast
  show ?thesis by (intro conjI) (rule h, rule t, rule p)
qed

subsection \<open>The list is sorted by startAt\<close>

lemma sortedByStartAt_filter: "sortedByStartAt rs \<Longrightarrow> sortedByStartAt (filter P rs)"
  by (simp add: sortedByStartAt_def sorted_filter)

lemma sortedByStartAt_slice: "sortedByStartAt rs \<Longrightarrow> sortedByStartAt (slice rs offset limit)"
  by (simp add: sortedByStartAt_def slice_def take_map [symmetric] drop_map [symmetric]
      sorted_wrt_take sorted_wrt_drop)

lemma sortedByStartAt_limited:
  "sortedByStartAt rs \<Longrightarrow> sortedByStartAt (fst (limited rs limit offset))"
  by (cases limit) (simp_all add: limited_def sortedByStartAt_slice)

lemma readers_sorted:
  assumes "sortedByStartAt (reserves s)"
  shows "sortedByStartAt (getReservesAll s limit offset)
    \<and> sortedByStartAt (fst (getReserves s limit offset))
    \<and> sortedByStartAt (fst (getConflicts s limit offset))
    \<and> sortedByStartAt (fst (getSkips s limit offset))"
proof -
  have "sortedByStartAt (getReservesAll s limit offset)"
    using assms by (cases limit) (simp_all add: getReservesAll_def sortedByStartAt_slice)
  then show ?thesis
    using assms
    by (simp add: getReserves_def getConflicts_def getSkips_def sortedByStartAt_limited
        sortedByStartAt_filter)
qed

lemma exec_sorted:
  assumes "thrown (exec e s op) = None" and "rebuilds op \<or> sortedByStartAt (reserves s)"
  shows "sortedByStartAt (reserves (post (exec e s op)))"
proof (cases op)
  case (SetTuners devices)
  then show ?thesis using assms by (simp add: setTuners_def returns_def)
next
  case (AddReserve pid encode)
  show ?thesis
    using assms(1) AddReserve addReserve_reserves [of e s pid encode]
    by (auto simp: sortedByStartAt_def sorted_array_sort_byStartAt)
next
  case (Cancel i)
  show ?thesis
  proof (cases "cancel_loop (reserves s) i")
    case None
    then show ?thesis
      using assms Cancel by (simp add: cancel_def start_def throws_def returns_def split: if_splits)
  next
    case (Some rs')
    then show ?thesis
      using assms Cancel cancel_loop_startAt [OF Some]
      by (simp add: cancel_def start_def throws_def returns_def writeReservesFile_def split: if_splits)
  qed
next
  case (RemoveSkip i)
  show ?thesis
  proof (cases "removeSkip_loop (reserves s) i")
    case None
    then show ?thesis
      using assms RemoveSkip by (simp add: removeSkip_def start_def throws_def returns_def split: if_splits)
  next
    case (Some a)
    obtain rs' rid where a: "a = (rs', rid)" by (cases a) auto
    have "map (\<lambda>r. startAt (program r)) rs' = map (\<lambda>r. startAt (program r)) (reserves s)"
      using removeSkip_loop_elems [of "reserves s" i rs' rid] Some a
        map_map [of startAt program rs'] map_map [of startAt program "reserves s"]
      by (simp add: comp_def)
    then show ?thesis
      using assms RemoveSkip Some a
      by (simp add: removeSkip_def start_def throws_def returns_def sortedByStartAt_def
          split: if_splits option.splits)
  qed
next
  case UpdateAll
  show ?thesis
    using assms(1) UpdateAll
    by (cases rule: updateAll_cases [where s = s and e = e])
       (simp_all add: throws_def createReserves_sorted)
next
  case (UpdateRule rid)
  show ?thesis
    using assms(1) UpdateRule
    by (cases rule: updateRule_cases [where s = s and e = e and rid = rid])
       (simp_all add: throws_def createReserves_sorted)
next
  case Clean
  then show ?thesis
    using assms by (simp add: clean_def returns_def sortedByStartAt_filter)
next
  case (Resume c)
  show ?thesis
  proof (cases c)
    case CallUpdateAll
    show ?thesis
      using assms(1) Resume CallUpdateAll
      by (cases rule: updateAll_rest_cases [where s = s and e = e])
         (simp_all add: createReserves_sorted)
  next
    case (CallUpdateRule rid)
    show ?thesis
      using assms(1) Resume CallUpdateRule
      by (cases rule: updateRule_rest_cases [where s = s and e = e and rid = rid])
         (simp_all add: createReserves_sorted)
  qed
qed

lemma run_sorted:
  "sortedByStartAt (reserves s) \<Longrightarrow> succeeds s ops \<Longrightarrow> sortedByStartAt (reserves (run s ops))"
proof (induction ops arbitrary: s)
  case Nil
  then show ?case by simp
next
  case (Cons a ops)
  obtain e op where a: "a = (e, op)" by (cases a) auto
  have ok: "thrown (exec e s op) = None" and rest: "succeeds (post (exec e s op)) ops"
    using Cons.prems(2) by (simp_all add: a)
  have "sortedByStartAt (reserves (post (exec e s op)))"
    using exec_sorted [OF ok] Cons.prems(1) by simp
  from Cons.IH [OF this rest] show ?case by (simp add: a)
qed

lemma exec_reads_sorted:
  assumes "thrown (exec e s op) = None" and "rebuilds op \<or> sortedByStartAt (reserves s)"
  shows "sortedByStartAt (reserves (post (exec e s op)))
    \<and> sortedByStartAt (getReservesAll (post (exec e s op)) limit offset)
    \<and> sortedByStartAt (fst (getReserves (post (exec e s op)) limit offset))
    \<and> sortedByStartAt (fst (getConflicts (post (exec e s op)) limit offset))
    \<and> sortedByStartAt (fst (getSkips (post (exec e s op)) limit offset))
    \<and> (succeeds (post (exec e s op)) ops \<longrightarrow>
         sortedByStartAt (reserves (run (post (exec e s op)) ops)))"
  using exec_sorted [OF assms] readers_sorted [of "post (exec e s op)" limit offset]
    run_sorted [of "post (exec e s op)" ops]
  by simp

text \<open>
  C8. The list is sorted after every run of operations that all return normally
  (\<open>exec_reads_sorted\<close>), but not after every operation that returns normally. On a
  planner started without a file, with two tuners and the programs 1 on [100, 300)
  and 2 on [150, 250) reserved by hand, the catalogue moves the program 1 to
  [400, 500) and \<open>updateAll\<close> is called while the rule store fails: it has assigned the
  new program to the reservation in place when \<open>rulesDB.findAll\<close> throws. \<open>setTuners\<close>
  and \<open>clean\<close> then return normally, and \<open>getReservesAll\<close> returns the program 1 at 400
  before the program 2 at 150.
\<close>

theorem C8_unsorted_read:
  "succeeds (init [])
       [(ex_env, SetTuners [\<lparr>index = 0, types = [''GR'']\<rparr>, \<lparr>index = 1, types = [''GR'']\<rparr>]),
        (ex_env, AddReserve 1 None), (ex_env, AddReserve 2 None)]
   \<and> map (\<lambda>r. (id_p (program r), startAt (program r))) (getReservesAll ex_two_manual None 0)
       = [(1, 100), (2, 150)]
   \<and> thrown (exec ex_env_moved ex_two_manual UpdateAll) = Some (DBError ''rules'')
   \<and> thrown (exec ex_env_moved (post (exec ex_env_moved ex_two_manual UpdateAll))
        (SetTuners [\<lparr>index = 0, types = [''GR'']\<rparr>])) = None
   \<and> map (\<lambda>r. (id_p (program r), startAt (program r)))
        (getReservesAll (post (exec ex_env_moved
           (post (exec ex_env_moved ex_two_manual UpdateAll))
           (SetTuners [\<lparr>index = 0, types = [''GR'']\<rparr>]))) None 0)
       = [(1, 400), (2, 150)]
   \<and> thrown (exec (ex_env_moved\<lparr>getTime := 120\<rparr>)
        (post (exec ex_env_moved ex_two_manual UpdateAll)) Clean) = None
   \<and> \<not> sortedByStartAt (getReservesAll (post (exec (ex_env_moved\<lparr>getTime := 120\<rparr>)
        (post (exec ex_env_moved ex_two_manual UpdateAll)) Clean)) None 0)"
  by code_simp

subsection \<open>Deduplication by program id\<close>

lemma make_list_dedup:
  "map (\<lambda>l. (pre @ ms) ! idx l) (filter isStart (make_list ms (length pre) pidx))
     = dedup ms pidx"
proof (induction ms arbitrary: pre pidx)
  case Nil
  show ?case by simp
next
  case (Cons m ms)
  have "map (\<lambda>l. ((pre @ [m]) @ ms) ! idx l)
          (filter isStart (make_list ms (length (pre @ [m])) p')) = dedup ms p'" for p'
    by (rule Cons.IH)
  then have IH: "map (\<lambda>l. (pre @ m # ms) ! idx l)
          (filter isStart (make_list ms (Suc (length pre)) p')) = dedup ms p'" for p'
    by simp
  show ?case by (simp add: IH)
qed

lemma mset_filter_event_list:
  "mset (filter isStart (event_list ms)) = mset (filter isStart (make_list ms 0 Map.empty))"
  by (simp add: event_list_def mset_array_sort)

lemma event_list_dedup:
  "mset (map (\<lambda>l. ms ! idx l) (filter isStart (event_list ms))) = mset (dedup ms Map.empty)"
proof -
  have "mset (map (\<lambda>l. ms ! idx l) (filter isStart (event_list ms)))
      = image_mset (\<lambda>l. ms ! idx l) (mset (filter isStart (event_list ms)))" by simp
  also have "\<dots> = image_mset (\<lambda>l. ms ! idx l) (mset (filter isStart (make_list ms 0 Map.empty)))"
    by (simp only: mset_filter_event_list)
  also have "\<dots> = mset (map (\<lambda>l. ([] @ ms) ! idx l)
      (filter isStart (make_list ms (length ([] :: ReserveProgram list)) Map.empty)))" by simp
  also have "\<dots> = mset (dedup ms Map.empty)" by (simp only: make_list_dedup)
  finally show ?thesis .
qed

lemma marked_from_unmark: "marked_from m r \<Longrightarrow> unmark r = unmark m"
  by (simp add: marked_from_def)

lemma createReserves_dedup:
  "mset (map unmark (fst (createReserves ts ms)))
     = mset (map unmark (dedup (array_sort sortReserveProgram ms) Map.empty))"
proof -
  let ?S = "array_sort sortReserveProgram ms"
  let ?M = "fst (foldl sweep_event (?S, [], ts) (event_list ?S))"
  have all2: "list_all2 marked_from ?S ?M"
    using foldl_sweep_event_marked [of "(?S, [], ts)" "event_list ?S"] by simp
  have "unmark (?M ! idx l) = unmark (?S ! idx l)" if "l \<in> set (event_list ?S)" for l
    using event_list_idx [OF that] all2 by (simp add: list_all2_nthD marked_from_unmark)
  then have "map (\<lambda>l. unmark (?M ! idx l)) (filter isStart (event_list ?S))
      = map (\<lambda>l. unmark (?S ! idx l)) (filter isStart (event_list ?S))"
    by simp
  then have L: "map unmark (map (\<lambda>l. ?M ! idx l) (filter isStart (event_list ?S)))
      = map unmark (map (\<lambda>l. ?S ! idx l) (filter isStart (event_list ?S)))"
    by (simp add: comp_def)
  have "mset (map unmark (map (\<lambda>l. ?S ! idx l) (filter isStart (event_list ?S))))
      = image_mset unmark (mset (map (\<lambda>l. ?S ! idx l) (filter isStart (event_list ?S))))"
    by (simp only: mset_map)
  also have "\<dots> = image_mset unmark (mset (dedup ?S Map.empty))"
    by (simp only: event_list_dedup)
  also have "\<dots> = mset (map unmark (dedup ?S Map.empty))"
    by (simp only: mset_map)
  finally have "mset (map unmark (map (\<lambda>l. ?M ! idx l) (filter isStart (event_list ?S))))
      = mset (map unmark (dedup ?S Map.empty))"
    by (simp only: L)
  moreover have "mset (map unmark (fst (createReserves ts ms)))
      = mset (map unmark (map (\<lambda>l. ?M ! idx l) (filter isStart (event_list ?S))))"
    by (simp only: fst_createReserves mset_map mset_array_sort)
  ultimately show ?thesis by simp
qed

lemma dedup_subset: "set (dedup ms pidx) \<subseteq> set ms"
  by (induction ms arbitrary: pidx) auto

lemma dedup_unseen: "x \<in> set (dedup ms pidx) \<Longrightarrow> pidx (id_p (program x)) = None"
proof (induction ms arbitrary: pidx)
  case Nil
  then show ?case by simp
next
  case (Cons m ms)
  show ?case
  proof (cases "pidx (id_p (program m)) = None")
    case True
    show ?thesis
    proof (cases "x = m")
      case True
      then show ?thesis using \<open>pidx (id_p (program m)) = None\<close> by simp
    next
      case False
      with Cons.prems True have "x \<in> set (dedup ms (pidx(id_p (program m) \<mapsto> True)))"
        by simp
      from Cons.IH [OF this] show ?thesis by (simp split: if_splits)
    qed
  next
    case False
    with Cons.prems have "x \<in> set (dedup ms pidx)" by simp
    from Cons.IH [OF this] show ?thesis .
  qed
qed

lemma dedup_covers:
  "x \<in> set ms \<Longrightarrow> pidx (id_p (program x)) = None \<Longrightarrow>
   \<exists>r\<in>set (dedup ms pidx). id_p (program r) = id_p (program x)"
proof (induction ms arbitrary: pidx)
  case Nil
  then show ?case by simp
next
  case (Cons m ms)
  show ?case
  proof (cases "id_p (program m) = id_p (program x)")
    case True
    then show ?thesis using Cons.prems(2) by simp
  next
    case False
    then have x: "x \<in> set ms" using Cons.prems(1) by auto
    show ?thesis
    proof (cases "pidx (id_p (program m)) = None")
      case True
      have "\<exists>r\<in>set (dedup ms (pidx(id_p (program m) \<mapsto> True))).
              id_p (program r) = id_p (program x)"
        by (rule Cons.IH [of "pidx(id_p (program m) \<mapsto> True)", OF x])
           (use False Cons.prems(2) in simp)
      then show ?thesis using True by simp
    next
      case seen: False
      have "\<exists>r\<in>set (dedup ms pidx). id_p (program r) = id_p (program x)"
        by (rule Cons.IH [of pidx, OF x Cons.prems(2)])
      then show ?thesis using seen by auto
    qed
  qed
qed

lemma dedup_ids:
  "(\<lambda>r. id_p (program r)) ` set (dedup ms Map.empty) = (\<lambda>r. id_p (program r)) ` set ms"
proof
  show "(\<lambda>r. id_p (program r)) ` set (dedup ms Map.empty) \<subseteq> (\<lambda>r. id_p (program r)) ` set ms"
    using dedup_subset [of ms Map.empty] by blast
  show "(\<lambda>r. id_p (program r)) ` set ms \<subseteq> (\<lambda>r. id_p (program r)) ` set (dedup ms Map.empty)"
  proof
    fix i assume "i \<in> (\<lambda>r. id_p (program r)) ` set ms"
    then obtain x where x: "x \<in> set ms" "i = id_p (program x)" by blast
    from dedup_covers [OF x(1), of Map.empty] obtain r
      where "r \<in> set (dedup ms Map.empty)" "id_p (program r) = id_p (program x)" by auto
    then show "i \<in> (\<lambda>r. id_p (program r)) ` set (dedup ms Map.empty)"
      using x(2) by (metis imageI)
  qed
qed

lemma dedup_distinct: "distinct (map (\<lambda>r. id_p (program r)) (dedup ms pidx))"
proof (induction ms arbitrary: pidx)
  case Nil
  show ?case by simp
next
  case (Cons m ms)
  show ?case
  proof (cases "pidx (id_p (program m)) = None")
    case True
    have "id_p (program x) \<noteq> id_p (program m)"
      if "x \<in> set (dedup ms (pidx(id_p (program m) \<mapsto> True)))" for x
      using dedup_unseen [OF that] by (simp split: if_splits)
    then have "id_p (program m)
        \<notin> (\<lambda>r. id_p (program r)) ` set (dedup ms (pidx(id_p (program m) \<mapsto> True)))"
      by (metis imageE)
    moreover have "distinct (map (\<lambda>r. id_p (program r))
        (dedup ms (pidx(id_p (program m) \<mapsto> True))))"
      by (rule Cons.IH)
    ultimately show ?thesis using True by simp
  next
    case False
    have "distinct (map (\<lambda>r. id_p (program r)) (dedup ms pidx))"
      by (rule Cons.IH)
    then show ?thesis using False by auto
  qed
qed

lemma dedup_first:
  assumes "sorted_wrt (\<lambda>a b. cmp a b \<le> 0) ms" and "\<forall>m\<in>set ms. cmp m m \<le> 0"
    and "r \<in> set (dedup ms pidx)" and "m' \<in> set ms"
    and "id_p (program m') = id_p (program r)"
  shows "cmp r m' \<le> (0::int)"
  using assms
proof (induction ms arbitrary: pidx)
  case Nil
  then show ?case by simp
next
  case (Cons m ms)
  show ?case
  proof (cases "pidx (id_p (program m)) = None")
    case True
    show ?thesis
    proof (cases "r = m")
      case True
      then show ?thesis using Cons.prems by auto
    next
      case False
      with Cons.prems(3) True
      have r: "r \<in> set (dedup ms (pidx(id_p (program m) \<mapsto> True)))" by simp
      have "id_p (program r) \<noteq> id_p (program m)" using dedup_unseen [OF r] by auto
      with Cons.prems have "m' \<in> set ms" by auto
      then show ?thesis using Cons.IH [OF _ _ r] Cons.prems by simp
    qed
  next
    case False
    with Cons.prems(3) have r: "r \<in> set (dedup ms pidx)" by simp
    have "id_p (program r) \<noteq> id_p (program m)" using dedup_unseen [OF r] False by auto
    with Cons.prems have "m' \<in> set ms" by auto
    then show ?thesis using Cons.IH [OF _ _ r] Cons.prems by simp
  qed
qed

lemma unmark_id: "id_p (program (unmark r)) = id_p (program r)"
  by (simp add: unmark_def)

lemma createReserves_ids_mset:
  "mset (map (\<lambda>r. id_p (program r)) (fst (createReserves ts ms)))
     = mset (map (\<lambda>r. id_p (program r)) (dedup (array_sort sortReserveProgram ms) Map.empty))"
proof -
  have "image_mset (\<lambda>r. id_p (program r)) (mset (map unmark (fst (createReserves ts ms))))
     = image_mset (\<lambda>r. id_p (program r))
         (mset (map unmark (dedup (array_sort sortReserveProgram ms) Map.empty)))"
    by (simp only: createReserves_dedup)
  then show ?thesis by (simp add: image_mset.compositionality comp_def unmark_id)
qed

lemma createReserves_ids_distinct:
  "distinct (map (\<lambda>r. id_p (program r)) (fst (createReserves ts ms)))"
  using createReserves_ids_mset [of ts ms] dedup_distinct mset_eq_imp_distinct_iff by blast

lemma createReserves_ids:
  "(\<lambda>r. id_p (program r)) ` set (fst (createReserves ts ms)) = (\<lambda>r. id_p (program r)) ` set ms"
proof -
  have "set (map (\<lambda>r. id_p (program r)) (fst (createReserves ts ms)))
     = set (map (\<lambda>r. id_p (program r)) (dedup (array_sort sortReserveProgram ms) Map.empty))"
    using createReserves_ids_mset [of ts ms] by (rule mset_eq_setD)
  then show ?thesis
    using dedup_ids [of "array_sort sortReserveProgram ms"]
    by (simp add: set_array_sort)
qed

subsection \<open>A skip survives updateAll\<close>

text \<open>
  C6. Let the planner be idle, let every reservation of the program \<open>p\<close> be skipped
  (and let there be one), and let \<open>updateAll\<close> find the rules, among them an enabled
  rule for which the catalogue returns a program with id \<open>p\<close>; the catalogue answers
  \<open>findId i\<close> with programs of id \<open>i\<close>. Then \<open>updateAll\<close> returns normally, and the list
  it leaves has a reservation of \<open>p\<close>, and every reservation of \<open>p\<close> in it is skipped.
\<close>

theorem C6_skip_survives_updateAll:
  assumes idle: "\<not> isRunning s"
    and rules: "findAll e = Inr rules"
    and rule: "rule \<in> set rules" "enable rule"
      "findRule e (createSearchOption rule) = Inr progs" "q \<in> set progs" "id_p q = p"
    and present: "\<exists>r\<in>set (reserves s). id_p (program r) = p"
    and skipped: "\<forall>r\<in>set (reserves s). id_p (program r) = p \<longrightarrow> isSkip r"
    and catalogue: "\<forall>i q qs. findId e i = Inr (q # qs) \<longrightarrow> id_p q = i"
  shows "thrown (updateAll e s) = None
    \<and> (\<exists>r\<in>set (reserves (post (updateAll e s))). id_p (program r) = p)
    \<and> (\<forall>r\<in>set (reserves (post (updateAll e s))). id_p (program r) = p \<longrightarrow> isSkip r)"
proof (cases rule: updateAll_cases [where s = s and e = e])
  case busy
  then show ?thesis using idle by simp
next
  case (failed err)
  then show ?thesis using rules by simp
next
  case (completed rules' sk)
  have rules': "rules' = rules" using completed(2) rules by simp
  let ?ms = "List.map_filter (refreshed e) (reserves s) @ concat (map (rule_matches e sk) rules)"
  have out: "reserves (post (updateAll e s)) = fst (createReserves (tuners s) ?ms)"
    using completed(5) rules' by simp
  have skp: "skipOf sk p"
    using completed(4) present skipped by auto
  have cand: "ruleReserve (id_r rule) (createOption rule) (createEncodeOption rule) sk q \<in> set ?ms"
    using rule by (auto simp: rule_matches_def intro!: bexI [of _ rule])
  have all_skip: "isSkip m" if m: "m \<in> set ?ms" and idm: "id_p (program m) = p" for m
  proof -
    from m consider (manual) r where "r \<in> set (reserves s)" "refreshed e r = Some m"
      | (byRule) rl where "m \<in> set (rule_matches e sk rl)"
      by (auto simp: set_map_filter)
    then show ?thesis
    proof cases
      case manual
      from refreshed_fields(4) [OF manual(2)] obtain p' ps
        where f: "findId e (id_p (program r)) = Inr (p' # ps)" and m': "m = r\<lparr>program := p'\<rparr>"
        by blast
      have "id_p p' = id_p (program r)" using catalogue f by blast
      then have "id_p (program r) = p" using idm m' by simp
      then have "isSkip r" using skipped manual(1) by blast
      then show ?thesis using refreshed_fields(1) [OF manual(2)] by simp
    next
      case byRule
      then show ?thesis using rule_matches_fields(2) [OF byRule] skp idm by simp
    qed
  qed
  have ex: "\<exists>r\<in>set (reserves (post (updateAll e s))). id_p (program r) = p"
  proof -
    have "p \<in> (\<lambda>r. id_p (program r)) ` set ?ms"
      using cand rule(5) by (metis (mono_tags, lifting) imageI ruleReserve_fields(1))
    then have "p \<in> (\<lambda>r. id_p (program r)) ` set (fst (createReserves (tuners s) ?ms))"
      by (simp only: createReserves_ids)
    then show ?thesis using out by auto
  qed
  have al: "isSkip r" if r: "r \<in> set (reserves (post (updateAll e s)))"
    and idr: "id_p (program r) = p" for r
  proof -
    from r out have "r \<in> set (fst (createReserves (tuners s) ?ms))" by simp
    from createReserves_marked [OF this] obtain m where m: "m \<in> set ?ms" "marked_from m r"
      by blast
    have "id_p (program m) = p" using marked_from_fields(1) [OF m(2)] idr by simp
    from all_skip [OF m(1) this] show ?thesis using marked_from_fields(2) [OF m(2)] by simp
  qed
  show ?thesis using completed(3) ex al by blast
qed

text \<open>The rule 5 still matches the program 1, whose reservation is skipped.\<close>

theorem C6_skip_survives_updateAll_witness:
  "\<not> isRunning (ex_state False [(ex_byRule 5 (ex_program 1 100 300))\<lparr>isSkip := True\<rparr>])
   \<and> findAll ex_env = Inr [ex_rule 5]
   \<and> enable (ex_rule 5)
   \<and> findRule ex_env (createSearchOption (ex_rule 5)) = Inr [ex_program 1 100 300]
   \<and> id_p (ex_program 1 100 300) = 1
   \<and> thrown (updateAll ex_env
        (ex_state False [(ex_byRule 5 (ex_program 1 100 300))\<lparr>isSkip := True\<rparr>])) = None
   \<and> list_ex (\<lambda>r. id_p (program r) = 1) (reserves (post (updateAll ex_env
        (ex_state False [(ex_byRule 5 (ex_program 1 100 300))\<lparr>isSkip := True\<rparr>]))))
   \<and> list_all isSkip (filter (\<lambda>r. id_p (program r) = 1) (reserves (post (updateAll ex_env
        (ex_state False [(ex_byRule 5 (ex_program 1 100 300))\<lparr>isSkip := True\<rparr>])))))"
proof -
  let ?s = "ex_state False [(ex_byRule 5 (ex_program 1 100 300))\<lparr>isSkip := True\<rparr>]"
  have idle: "\<not> isRunning ?s" by (simp add: ex_state_def)
  have rules: "findAll ex_env = Inr [ex_rule 5]" by (simp add: ex_env_def)
  have rule: "ex_rule 5 \<in> set [ex_rule 5]" "enable (ex_rule 5)"
    "findRule ex_env (createSearchOption (ex_rule 5)) = Inr [ex_program 1 100 300]"
    "ex_program 1 100 300 \<in> set [ex_program 1 100 300]" "id_p (ex_program 1 100 300) = 1"
    by (simp_all add: ex_env_def ex_rule_def ex_program_def)
  have present: "\<exists>r\<in>set (reserves ?s). id_p (program r) = 1"
    by (simp add: ex_state_def ex_byRule_def ex_program_def)
  have skipped: "\<forall>r\<in>set (reserves ?s). id_p (program r) = 1 \<longrightarrow> isSkip r"
    by (simp add: ex_state_def ex_byRule_def ex_program_def)
  have catalogue: "\<forall>i q qs. findId ex_env i = Inr (q # qs) \<longrightarrow> id_p q = i"
    by (simp add: ex_env_def ex_program_def)
  show ?thesis
    using idle rules rule(2,3,5)
      C6_skip_survives_updateAll [OF idle rules rule present skipped catalogue]
    by (simp add: list_all_iff list_ex_iff)
qed

subsection \<open>addReserve and the conflict check\<close>

lemma overlapping_filter:
  "overlapping rs pid a =
     (if \<exists>r\<in>set rs. id_p (program r) = pid then None
      else Some (filter (\<lambda>r. \<not> isConflict r \<and> \<not> isSkip r
                  \<and> startAt (program r) \<le> endAt (program a)
                  \<and> endAt (program r) \<ge> startAt (program a)) rs))"
  by (induction rs) auto

text \<open>
  C2, as the claim states it, fails: on one GR tuner, with the rule reservation of
  the program 1 on [100, 300), adding the program 2 on [150, 250) throws
  \<open>ReservationManagerAddReserveConflict\<close>, and yet the resolver, run over the two
  candidates, marks the program 1 and not the new program 2.
\<close>

theorem C2_counterexample:
  "thrown (addReserve ex_env (ex_state False [ex_byRule 5 (ex_program 1 100 300)]) 2 None)
     = Some ReservationManagerAddReserveConflict
   \<and> map (\<lambda>r. (id_p (program r), isConflict r))
       (fst (createReserves [ex_tuner]
          [ex_byRule 5 (ex_program 1 100 300), newManual ex_env (ex_program 2 150 250) None]))
     = [(1, True), (2, False)]"
  by code_simp

text \<open>
  C2, amended. When the planner is idle, the encode option is valid, the catalogue has
  the program and the program is not reserved yet, \<open>addReserve\<close> throws
  \<open>ReservationManagerAddReserveConflict\<close> iff the resolver, run over the existing
  reservations that are neither conflict nor skip and whose time meets the new
  program's, plus the new reservation, marks any of these candidates; then the
  reservation list and the file are as before. Otherwise it returns normally, the list
  is the old one with the new reservation, sorted by \<open>startAt\<close>, and that list is
  written. In both cases \<open>isRunning\<close> is false at the end.
\<close>

theorem C2_addReserve_conflict:
  assumes idle: "\<not> isRunning s"
    and valid: "case encode of None \<Rightarrow> True | Some enc \<Rightarrow> checkEncodeOption e enc"
    and found: "findId e pid = Inr (p # ps)"
    and fresh: "\<forall>r\<in>set (reserves s). id_p (program r) \<noteq> pid"
  shows "let added = newManual e p encode;
             candidates = filter (\<lambda>r. \<not> isConflict r \<and> \<not> isSkip r
                  \<and> startAt (program r) \<le> endAt p \<and> endAt (program r) \<ge> startAt p)
                (reserves s) @ [added];
             newReserves = fst (createReserves (tuners s) candidates);
             out = addReserve e s pid encode
         in (thrown out = Some ReservationManagerAddReserveConflict)
              = list_ex isConflict newReserves
            \<and> (if list_ex isConflict newReserves
               then reserves (post out) = reserves s \<and> written (post out) = written s
               else thrown out = None
                 \<and> reserves (post out) = array_sort byStartAt (reserves s @ [added])
                 \<and> written (post out) = written s @ [reserves (post out)])
            \<and> \<not> isRunning (post out)"
proof -
  have enc: "\<not> (case encode of None \<Rightarrow> False | Some enc \<Rightarrow> \<not> checkEncodeOption e enc)"
    using valid by (cases encode) simp_all
  have ov: "overlapping (reserves s) pid (newManual e p encode)
      = Some (filter (\<lambda>r. \<not> isConflict r \<and> \<not> isSkip r
                  \<and> startAt (program r) \<le> endAt p \<and> endAt (program r) \<ge> startAt p)
                (reserves s))"
    using fresh by (simp add: overlapping_filter newManual_fields)
  show ?thesis
    using idle enc
    by (simp add: addReserve_def found ov Let_def case_prod_beta throws_def returns_def
        finalize_def writeReservesFile_def)
qed

theorem C2_addReserve_conflict_witness:
  "\<not> isRunning (ex_state False [ex_byRule 5 (ex_program 7 500 600)])
   \<and> findId ex_env 2 = Inr [ex_program 2 150 250]
   \<and> thrown (addReserve ex_env (ex_state False [ex_byRule 5 (ex_program 7 500 600)]) 2 None)
       = None
   \<and> reserves (post (addReserve ex_env (ex_state False [ex_byRule 5 (ex_program 7 500 600)])
        2 None))
       = [newManual ex_env (ex_program 2 150 250) None, ex_byRule 5 (ex_program 7 500 600)]"
proof -
  let ?s = "ex_state False [ex_byRule 5 (ex_program 7 500 600)]"
  have idle: "\<not> isRunning ?s" by (simp add: ex_state_def)
  have valid: "case None of None \<Rightarrow> True | Some enc \<Rightarrow> checkEncodeOption ex_env enc" by simp
  have found: "findId ex_env 2 = Inr (ex_program 2 150 250 # [])" by (simp add: ex_env_def)
  have fresh: "\<forall>r\<in>set (reserves ?s). id_p (program r) \<noteq> 2"
    by (simp add: ex_state_def ex_byRule_def ex_program_def)
  have quiet: "\<not> list_ex isConflict (fst (createReserves (tuners ?s)
      (filter (\<lambda>r. \<not> isConflict r \<and> \<not> isSkip r
           \<and> startAt (program r) \<le> endAt (ex_program 2 150 250)
           \<and> endAt (program r) \<ge> startAt (ex_program 2 150 250)) (reserves ?s)
       @ [newManual ex_env (ex_program 2 150 250) None])))"
    by code_simp
  have sorted: "array_sort byStartAt (reserves ?s @ [newManual ex_env (ex_program 2 150 250) None])
      = [newManual ex_env (ex_program 2 150 250) None, ex_byRule 5 (ex_program 7 500 600)]"
    by code_simp
  show ?thesis
    using idle found quiet sorted C2_addReserve_conflict [OF idle valid found fresh]
    by (simp add: Let_def)
qed

subsection \<open>The authority order\<close>

lemma sortReserveProgram_le:
  assumes "hasAuthority a" "hasAuthority b"
  shows "(sortReserveProgram a b \<le> 0) =
     ((isManual a \<and> \<not> isManual b)
      \<or> (isManual a \<and> isManual b \<and> the (manualId a) \<le> the (manualId b))
      \<or> (\<not> isManual a \<and> \<not> isManual b \<and> the (ruleId a) \<le> the (ruleId b)))"
  using assms by (auto simp: sortReserveProgram_def hasAuthority_def split: if_splits)

lemma sortReserveProgram_total:
  "hasAuthority a \<Longrightarrow> hasAuthority b \<Longrightarrow>
   sortReserveProgram a b \<le> 0 \<or> sortReserveProgram b a \<le> 0"
  by (auto simp: sortReserveProgram_le)

lemma sortReserveProgram_trans:
  "hasAuthority a \<Longrightarrow> hasAuthority b \<Longrightarrow> hasAuthority c \<Longrightarrow>
   sortReserveProgram a b \<le> 0 \<Longrightarrow> sortReserveProgram b c \<le> 0 \<Longrightarrow>
   sortReserveProgram a c \<le> 0"
  by (auto simp: sortReserveProgram_le)

lemma sortReserveProgram_refl: "sortReserveProgram a a \<le> 0"
  by (auto simp: sortReserveProgram_def split: option.splits)

lemma sortReserveProgram_unmark:
  "sortReserveProgram (unmark a) b = sortReserveProgram a b"
  by (simp add: sortReserveProgram_def unmark_def)

lemma sorted_matches:
  assumes "\<forall>m\<in>set ms. hasAuthority m"
  shows "sorted_wrt (\<lambda>a b. sortReserveProgram a b \<le> 0) (array_sort sortReserveProgram ms)"
  by (rule sorted_wrt_array_sort [where P = hasAuthority])
     (use assms sortReserveProgram_total sortReserveProgram_trans in blast)+

lemma sorted_active_after:
  assumes "\<forall>m\<in>set matches. hasAuthority m" "\<forall>i\<in>set act. i < length matches"
    "idx l < length matches"
  shows "sorted_wrt (\<lambda>a b. sortReserveProgram (matches ! a) (matches ! b) \<le> 0)
           (active_after matches act l)"
  unfolding active_after_def
proof (rule sorted_wrt_array_sort [where P = "\<lambda>i. i < length matches"])
  show "\<forall>x\<in>set (if isStart l then act @ [idx l] else filter (\<lambda>r. r \<noteq> idx l) act).
          x < length matches"
    using assms(2,3) by auto
next
  fix a b assume "a < length matches" "b < length matches"
  then show "sortReserveProgram (matches ! a) (matches ! b) \<le> 0
      \<or> sortReserveProgram (matches ! b) (matches ! a) \<le> 0"
    using assms(1) sortReserveProgram_total by simp
next
  fix a b c assume "a < length matches" "b < length matches" "c < length matches"
    "sortReserveProgram (matches ! a) (matches ! b) \<le> 0"
    "sortReserveProgram (matches ! b) (matches ! c) \<le> 0"
  then show "sortReserveProgram (matches ! a) (matches ! c) \<le> 0"
    using assms(1) sortReserveProgram_trans [of "matches ! a" "matches ! b" "matches ! c"]
    by simp
qed

lemma createReserves_first:
  assumes auth: "\<forall>m\<in>set ms. hasAuthority m" and r: "r \<in> set (fst (createReserves ts ms))"
  shows "\<exists>m\<in>set ms. marked_from m r
           \<and> (\<forall>m'\<in>set ms. id_p (program m') = id_p (program r)
                 \<longrightarrow> sortReserveProgram m m' \<le> 0)"
proof -
  let ?S = "array_sort sortReserveProgram ms"
  from createReserves_marked [OF r] obtain m where m: "m \<in> set ms" "marked_from m r" by blast
  have "unmark r \<in># mset (map unmark (fst (createReserves ts ms)))" using r by simp
  then have "unmark r \<in># mset (map unmark (dedup ?S Map.empty))"
    by (simp only: createReserves_dedup)
  then obtain x where x: "x \<in> set (dedup ?S Map.empty)" "unmark r = unmark x" by auto
  have first: "sortReserveProgram x m' \<le> 0"
    if "m' \<in> set ms" "id_p (program m') = id_p (program r)" for m'
  proof (rule dedup_first [where ms = ?S and pidx = Map.empty])
    show "sorted_wrt (\<lambda>a b. sortReserveProgram a b \<le> 0) ?S" using auth by (rule sorted_matches)
    show "\<forall>m\<in>set ?S. sortReserveProgram m m \<le> 0" by (simp add: sortReserveProgram_refl)
    show "x \<in> set (dedup ?S Map.empty)" by (rule x(1))
    show "m' \<in> set ?S" using that(1) by (simp add: set_array_sort)
    have "id_p (program (unmark r)) = id_p (program (unmark x))" using x(2) by simp
    then show "id_p (program m') = id_p (program x)" using that(2) by (simp add: unmark_id)
  qed
  have "unmark m = unmark x" using marked_from_unmark [OF m(2)] x(2) by simp
  then have "sortReserveProgram m m' = sortReserveProgram x m'" for m'
    using sortReserveProgram_unmark [of m m'] sortReserveProgram_unmark [of x m'] by simp
  then show ?thesis using m first by auto
qed

subsection \<open>Where the flag is cleared\<close>

text \<open>
  Called on an idle planner, \<open>addReserve\<close> and \<open>updateRule\<close> leave \<open>isRunning\<close> false on
  every path; \<open>updateAll\<close> leaves it set exactly when \<open>rulesDB.findAll\<close> fails;
  \<open>removeSkip\<close> leaves it set when no reservation is of the program, and, like
  \<open>cancel\<close>, when it returns with a call started, which has set the flag again.
\<close>

lemma addReserve_flag: "\<not> isRunning s \<Longrightarrow> \<not> isRunning (post (addReserve e s pid encode))"
  by (auto simp: addReserve_def throws_def returns_def finalize_def writeReservesFile_def
      Let_def case_prod_beta split: option.splits sum.splits list.splits)

lemma updateRule_flag: "\<not> isRunning s \<Longrightarrow> \<not> isRunning (post (updateRule e s rid))"
  by (cases rule: updateRule_cases [where s = s and e = e and rid = rid]) simp_all

lemma updateRule_rest_flag: "\<not> isRunning (post (updateRule_rest e s rid))"
  by (cases rule: updateRule_rest_cases [where s = s and e = e and rid = rid]) simp_all

lemma updateAll_flag:
  "\<not> isRunning s \<Longrightarrow> isRunning (post (updateAll e s)) = (\<exists>err. findAll e = Inl err)"
  by (cases "findAll e")
     (simp_all add: updateAll_def updateAll_rest_def throws_def returns_def
        writeReservesFile_def case_prod_beta Let_def)

lemma cancel_flag:
  "\<not> isRunning s \<Longrightarrow>
   isRunning (post (cancel s i)) = (started (cancel s i) = Some CallUpdateAll)"
  by (simp add: cancel_def start_def returns_def writeReservesFile_def Let_def
      split: option.splits)

lemma removeSkip_loop_None:
  "(removeSkip_loop rs i = None) = (\<forall>r\<in>set rs. id_p (program r) \<noteq> i)"
  by (induction rs) auto

lemma removeSkip_flag:
  assumes "\<not> isRunning s"
  shows "isRunning (post (removeSkip s i))
    = ((\<forall>r\<in>set (reserves s). id_p (program r) \<noteq> i) \<or> started (removeSkip s i) \<noteq> None)"
proof (cases "removeSkip_loop (reserves s) i")
  case None
  then show ?thesis
    using assms removeSkip_loop_None [of "reserves s" i]
    by (simp add: removeSkip_def returns_def Let_def)
next
  case (Some a)
  then have "\<not> (\<forall>r\<in>set (reserves s). id_p (program r) \<noteq> i)"
    using removeSkip_loop_None [of "reserves s" i] by simp
  then show ?thesis
    using assms Some
    by (simp add: removeSkip_def start_def returns_def Let_def
        split: prod.splits option.splits)
qed

subsection \<open>The tuners, first fit\<close>

lemma tryTuners_None: "(tryTuners ts p = None) = list_all (\<lambda>t. tryAdd t p = None) ts"
  by (induction ts) (auto split: option.splits)

lemma tryTuners_first_fit:
  assumes "tryTuners ts p = Some ts'"
  shows "\<exists>n<length ts. list_all (\<lambda>t. tryAdd t p = None) (take n ts)
           \<and> tryAdd (ts ! n) p = Some (ts' ! n) \<and> ts' = ts[n := ts' ! n]"
  using assms
proof (induction ts arbitrary: ts')
  case Nil
  then show ?case by simp
next
  case (Cons t ts)
  show ?case
  proof (cases "tryAdd t p")
    case None
    with Cons.prems obtain us where us: "tryTuners ts p = Some us" and ts': "ts' = t # us"
      by (auto split: option.splits)
    from Cons.IH [OF us] obtain n where n: "n < length ts"
      "list_all (\<lambda>t. tryAdd t p = None) (take n ts)"
      "tryAdd (ts ! n) p = Some (us ! n)" "us = ts[n := us ! n]" by blast
    have "Suc n < length (t # ts)" using n(1) by simp
    moreover have "list_all (\<lambda>t. tryAdd t p = None) (take (Suc n) (t # ts))"
      using n(2) None by simp
    moreover have "tryAdd ((t # ts) ! Suc n) p = Some (ts' ! Suc n)"
      using n(3) ts' by simp
    moreover have "ts' = (t # ts)[Suc n := ts' ! Suc n]"
      using n(4) ts' by simp
    ultimately show ?thesis by blast
  next
    case (Some t')
    with Cons.prems have ts': "ts' = t' # ts" by simp
    have "0 < length (t # ts)" by simp
    moreover have "list_all (\<lambda>t. tryAdd t p = None) (take 0 (t # ts))" by simp
    moreover have "tryAdd ((t # ts) ! 0) p = Some (ts' ! 0)" using Some ts' by simp
    moreover have "ts' = (t # ts)[0 := ts' ! 0]" using ts' by simp
    ultimately show ?thesis by blast
  qed
qed

lemma tryAdd_held: "tryAdd t p = Some t' \<Longrightarrow> held t' = held t @ [p]"
  by (auto simp: tryAdd_def split: if_splits)

lemma tryTuners_held:
  "tryTuners ts p = Some ts' \<Longrightarrow>
   mset (concat (map held ts')) = add_mset p (mset (concat (map held ts)))"
proof (induction ts arbitrary: ts')
  case Nil
  then show ?case by simp
next
  case (Cons t ts)
  show ?case
  proof (cases "tryAdd t p")
    case None
    with Cons.prems obtain us where us: "tryTuners ts p = Some us" and ts': "ts' = t # us"
      by (auto split: option.splits)
    from Cons.IH [OF us] show ?thesis by (simp add: ts')
  next
    case (Some t')
    with Cons.prems have ts': "ts' = t' # ts" by simp
    show ?thesis using tryAdd_held [OF Some] by (simp add: ts')
  qed
qed

subsection \<open>The loop over the active set, candidate by candidate\<close>

lemma mark_keeps:
  "program ((m[r := (m ! r)\<lparr>isConflict := True\<rparr>]) ! j) = program (m ! j)
   \<and> isSkip ((m[r := (m ! r)\<lparr>isConflict := True\<rparr>]) ! j) = isSkip (m ! j)"
proof (cases "j = r \<and> r < length m")
  case True
  then show ?thesis by simp
next
  case False
  then show ?thesis by (cases "r < length m") (auto simp: list_update_beyond)
qed

lemma evaluate_keeps:
  "program (fst (evaluate rs m ts) ! j) = program (m ! j)
   \<and> isSkip (fst (evaluate rs m ts) ! j) = isSkip (m ! j)"
proof (induction rs m ts rule: evaluate.induct)
  case (1 matches tns)
  show ?case by simp
next
  case (2 r rs matches tns)
  show ?case
  proof (cases "isSkip (matches ! r)")
    case True
    with 2(1) [OF True] show ?thesis by simp
  next
    case False
    show ?thesis
    proof (cases "tryTuners tns (program (matches ! r))")
      case None
      show ?thesis using 2(2) [OF False None] False None mark_keeps [of matches r j] by simp
    next
      case (Some ts')
      show ?thesis using 2(3) [OF False Some] False Some by simp
    qed
  qed
qed

lemma length_evaluate: "length (fst (evaluate rs m ts)) = length m"
  using evaluate_marked [of m rs ts] by (simp add: list_all2_lengthD)

lemma evaluate_append:
  "evaluate (xs @ ys) m ts = (case evaluate xs m ts of (m1, ts1) \<Rightarrow> evaluate ys m1 ts1)"
proof (induction xs m ts rule: evaluate.induct)
  case (1 matches tns)
  show ?case by simp
next
  case (2 r rs matches tns)
  show ?case
  proof (cases "isSkip (matches ! r)")
    case True
    with 2(1) [OF True] show ?thesis by simp
  next
    case False
    show ?thesis
    proof (cases "tryTuners tns (program (matches ! r))")
      case None
      show ?thesis using 2(2) [OF False None] False None by simp
    next
      case (Some ts')
      show ?thesis using 2(3) [OF False Some] False Some by simp
    qed
  qed
qed

text \<open>What the loop does with the \<open>j\<close>-th candidate, on the state the first \<open>j\<close> left.\<close>

lemma evaluate_take_Suc:
  assumes "j < length act"
  shows "evaluate (take (Suc j) act) m ts =
     (if refused act m ts j
      then ((fst (evaluate (take j act) m ts))
              [act ! j := (fst (evaluate (take j act) m ts) ! (act ! j))\<lparr>isConflict := True\<rparr>],
            turn act m ts j)
      else if isSkip (m ! (act ! j)) then evaluate (take j act) m ts
      else (fst (evaluate (take j act) m ts),
            the (tryTuners (turn act m ts j) (program (m ! (act ! j))))))"
proof -
  obtain m1 ts1 where e: "evaluate (take j act) m ts = (m1, ts1)"
    by (cases "evaluate (take j act) m ts") auto
  have k: "program (m1 ! (act ! j)) = program (m ! (act ! j))"
    "isSkip (m1 ! (act ! j)) = isSkip (m ! (act ! j))"
    using evaluate_keeps [of "take j act" m ts "act ! j"] e by simp_all
  have t: "turn act m ts j = ts1" by (simp add: turn_def e)
  have "evaluate (take (Suc j) act) m ts = evaluate [act ! j] m1 ts1"
    using assms evaluate_append [of "take j act" "[act ! j]" m ts]
    by (simp add: take_Suc_conv_app_nth e)
  then have step: "evaluate (take (Suc j) act) m ts =
      (if isSkip (m ! (act ! j)) then (m1, ts1)
       else case tryTuners ts1 (program (m ! (act ! j))) of
              Some ts' \<Rightarrow> (m1, ts')
            | None \<Rightarrow> (m1[act ! j := (m1 ! (act ! j))\<lparr>isConflict := True\<rparr>], ts1))"
    by (simp add: k split: option.splits)
  have r: "refused act m ts j
      = (\<not> isSkip (m ! (act ! j)) \<and> tryTuners ts1 (program (m ! (act ! j))) = None)"
    by (simp add: refused_def t tryTuners_None)
  show ?thesis
  proof (cases "isSkip (m ! (act ! j))")
    case True
    then show ?thesis using step r by (simp add: e)
  next
    case False
    show ?thesis
    proof (cases "tryTuners ts1 (program (m ! (act ! j)))")
      case None
      then show ?thesis using step r False by (simp add: e t)
    next
      case (Some ts')
      then show ?thesis using step r False by (simp add: e t)
    qed
  qed
qed

lemma turn_Suc:
  assumes "j < length act"
  shows "turn act m ts (Suc j) =
     (if isSkip (m ! (act ! j)) \<or> refused act m ts j then turn act m ts j
      else the (tryTuners (turn act m ts j) (program (m ! (act ! j)))))"
  using evaluate_take_Suc [OF assms, of m ts]
  by (auto simp: turn_def split: if_splits)

lemma turn_0: "turn act m ts 0 = ts"
  by (simp add: turn_def)

lemma refused_take:
  "j < n \<Longrightarrow> refused (take n act) m ts j = refused act m ts j"
  by (simp add: refused_def turn_def min_def)

text \<open>A candidate is marked by the loop iff it is refused at its turn; other marks stay.\<close>

lemma evaluate_take_marks:
  assumes "i < length m" "n \<le> length act"
  shows "isConflict (fst (evaluate (take n act) m ts) ! i)
     = (isConflict (m ! i) \<or> (\<exists>j<n. act ! j = i \<and> refused act m ts j))"
  using assms(2)
proof (induction n)
  case 0
  show ?case by simp
next
  case (Suc n)
  then have n: "n < length act" and IH: "isConflict (fst (evaluate (take n act) m ts) ! i)
     = (isConflict (m ! i) \<or> (\<exists>j<n. act ! j = i \<and> refused act m ts j))"
    by simp_all
  have len: "i < length (fst (evaluate (take n act) m ts))"
    using assms(1) by (simp add: length_evaluate)
  have ex: "(\<exists>j<Suc n. act ! j = i \<and> refused act m ts j)
      = ((\<exists>j<n. act ! j = i \<and> refused act m ts j) \<or> (act ! n = i \<and> refused act m ts n))"
    using less_Suc_eq by auto
  show ?case
  proof (cases "refused act m ts n")
    case True
    then show ?thesis
      using evaluate_take_Suc [OF n, of m ts] IH len ex
      by (cases "act ! n = i") (simp_all add: nth_list_update)
  next
    case False
    then show ?thesis
      using evaluate_take_Suc [OF n, of m ts] IH ex by (simp split: if_splits)
  qed
qed

lemma evaluate_marks:
  assumes "i < length m"
  shows "isConflict (fst (evaluate act m ts) ! i)
     = (isConflict (m ! i) \<or> (\<exists>j<length act. act ! j = i \<and> refused act m ts j))"
  using evaluate_take_marks [OF assms, of "length act" act ts] by simp

text \<open>
  The tuners a candidate finds hold the programs of the candidates before it that
  were accepted, and what the tuners held at the start.
\<close>

lemma turn_held:
  assumes "j \<le> length act"
  shows "mset (concat (map held (turn act m ts j)))
     = mset (concat (map held ts))
       + mset (map (\<lambda>j'. program (m ! (act ! j')))
           (filter (\<lambda>j'. \<not> isSkip (m ! (act ! j')) \<and> \<not> refused act m ts j') [0..<j]))"
  using assms
proof (induction j)
  case 0
  show ?case by (simp add: turn_0)
next
  case (Suc j)
  then have j: "j < length act" by simp
  show ?case
  proof (cases "isSkip (m ! (act ! j)) \<or> refused act m ts j")
    case True
    then show ?thesis using Suc turn_Suc [OF j, of m ts] by auto
  next
    case False
    then have "\<not> list_all (\<lambda>t. tryAdd t (program (m ! (act ! j))) = None) (turn act m ts j)"
      by (auto simp: refused_def)
    then obtain ts' where ts': "tryTuners (turn act m ts j) (program (m ! (act ! j))) = Some ts'"
      using tryTuners_None [of "turn act m ts j" "program (m ! (act ! j))"] by auto
    have "turn act m ts (Suc j) = ts'"
      using turn_Suc [OF j, of m ts] False ts' by simp
    then show ?thesis
      using Suc tryTuners_held [OF ts'] False by simp
  qed
qed

subsection \<open>The loop over the events, event by event\<close>

lemma distinct_map_filter_nth:
  assumes "distinct (map f (filter P xs))" "a < b" "b < length xs" "P (xs ! a)" "P (xs ! b)"
  shows "f (xs ! a) \<noteq> f (xs ! b)"
  using assms
proof (induction xs arbitrary: a b)
  case Nil
  then show ?case by simp
next
  case (Cons x xs)
  obtain b' where b': "b = Suc b'" using Cons.prems(2) by (cases b) auto
  show ?case
  proof (cases a)
    case 0
    have "xs ! b' \<in> set (filter P xs)" using Cons.prems b' by simp
    then have "f (xs ! b') \<in> f ` set (filter P xs)" by (rule imageI)
    moreover have "f x \<notin> f ` set (filter P xs)" using Cons.prems 0 by simp
    ultimately show ?thesis using 0 b' by auto
  next
    case (Suc a')
    have "distinct (map f (filter P xs))" using Cons.prems(1) by (simp split: if_splits)
    from Cons.IH [OF this, of a' b'] show ?thesis using Cons.prems Suc b' by simp
  qed
qed

lemma make_list_starts_distinct: "distinct (map idx (filter isStart (make_list ms k pidx)))"
proof (induction ms arbitrary: k pidx)
  case Nil
  show ?case by simp
next
  case (Cons m ms)
  have later: "k \<notin> idx ` set (make_list ms (Suc k) p')" for p'
    using make_list_idx [of _ ms "Suc k" p'] by fastforce
  have IH: "distinct (map idx (filter isStart (make_list ms (Suc k) p')))" for p'
    by (rule Cons.IH)
  show ?case using later IH by auto
qed

lemma event_list_starts_distinct: "distinct (map idx (filter isStart (event_list ms)))"
proof -
  have "mset (map idx (filter isStart (event_list ms)))
      = mset (map idx (filter isStart (make_list ms 0 Map.empty)))"
    by (simp add: event_list_def mset_array_sort)
  then show ?thesis
    using make_list_starts_distinct [of ms 0 Map.empty] mset_eq_imp_distinct_iff by blast
qed

lemma before_event_0: "before_event ts ms 0 = (ms, [], ts)"
  by (simp add: before_event_def)

lemma before_event_Suc:
  "k < length (event_list ms) \<Longrightarrow>
   before_event ts ms (Suc k) = sweep_event (before_event ts ms k) (event_list ms ! k)"
  by (simp add: before_event_def take_Suc_conv_app_nth)

lemma before_event_all:
  "before_event ts ms (length (event_list ms))
     = foldl sweep_event (ms, [], ts) (event_list ms)"
  by (simp add: before_event_def)

lemma sweep_event_unfold:
  "sweep_event (m, act, tns) l =
     (if isSkip (m ! idx l) then (m, act, tns)
      else (fst (evaluate (active_after m act l) m (map clear tns)), active_after m act l,
            snd (evaluate (active_after m act l) m (map clear tns))))"
  by (simp add: sweep_event_def Let_def case_prod_beta)

lemma before_event_marked: "list_all2 marked_from ms (fst (before_event ts ms k))"
  using foldl_sweep_event_marked [of "(ms, [], ts)" "take k (event_list ms)"]
  by (simp add: before_event_def)

lemma before_event_fields:
  assumes "before_event ts ms k = (m, act, tns)" "i < length ms"
  shows "length m = length ms" "marked_from (ms ! i) (m ! i)"
    "isSkip (m ! i) = isSkip (ms ! i)" "program (m ! i) = program (ms ! i)"
proof -
  have all2: "list_all2 marked_from ms m"
    using before_event_marked [of ms ts k] assms(1) by simp
  show "length m = length ms" using all2 by (simp add: list_all2_lengthD)
  show mf: "marked_from (ms ! i) (m ! i)" using all2 assms(2) by (simp add: list_all2_nthD)
  show "isSkip (m ! i) = isSkip (ms ! i)" "program (m ! i) = program (ms ! i)"
    using marked_from_fields(1,2) [OF mf] by simp_all
qed

lemma set_active_after:
  "set (active_after matches act l)
     = (if isStart l then insert (idx l) (set act) else set act - {idx l})"
  by (auto simp: active_after_def set_array_sort)

lemma mset_active_after:
  "mset (active_after matches act l)
     = mset (if isStart l then act @ [idx l] else filter (\<lambda>r. r \<noteq> idx l) act)"
  by (simp add: active_after_def mset_array_sort)

text \<open>The active set holds indices of candidates, each once, that have started.\<close>

lemma before_event_active:
  assumes "k \<le> length (event_list ms)" "before_event ts ms k = (m, act, tns)"
  shows "(\<forall>i\<in>set act. i < length ms) \<and> distinct act
    \<and> set act \<subseteq> idx ` set (filter isStart (take k (event_list ms)))"
  using assms
proof (induction k arbitrary: m act tns)
  case 0
  then show ?case by (simp add: before_event_0)
next
  case (Suc k)
  let ?evs = "event_list ms"
  let ?l = "?evs ! k"
  have k: "k < length ?evs" using Suc.prems(1) by simp
  obtain m0 act0 tns0 where b: "before_event ts ms k = (m0, act0, tns0)"
    by (cases "before_event ts ms k") auto
  have IH: "(\<forall>i\<in>set act0. i < length ms) \<and> distinct act0
    \<and> set act0 \<subseteq> idx ` set (filter isStart (take k ?evs))"
    using Suc.IH [OF _ b] k by simp
  have tk: "take (Suc k) ?evs = take k ?evs @ [?l]"
    using k by (simp add: take_Suc_conv_app_nth)
  have step: "(m, act, tns) = sweep_event (m0, act0, tns0) ?l"
    using Suc.prems(2) before_event_Suc [OF k, of ts] b by simp
  show ?case
  proof (cases "isSkip (m0 ! idx ?l)")
    case True
    then have "act = act0" using step by (simp add: sweep_event_unfold)
    then show ?thesis using IH tk by auto
  next
    case False
    then have act: "act = active_after m0 act0 ?l" using step by (simp add: sweep_event_unfold)
    have il: "idx ?l < length ms" using k event_list_idx [of ?l ms] by simp
    show ?thesis
    proof (cases "isStart ?l")
      case True
      have fresh: "idx ?l \<notin> set act0"
      proof
        assume "idx ?l \<in> set act0"
        then obtain l' where l': "l' \<in> set (take k ?evs)" "isStart l'" "idx l' = idx ?l"
          using IH by auto
        then obtain k' where k': "k' < k" "?evs ! k' = l'"
          using k by (auto simp: in_set_conv_nth)
        have d: "distinct (map idx (filter isStart ?evs))"
          by (rule event_list_starts_distinct)
        show False
          using distinct_map_filter_nth [OF d, of k' k] k k' l' True by simp
      qed
      have "mset act = mset (act0 @ [idx ?l])"
        using mset_active_after [of m0 act0 ?l] True act by simp
      then have "distinct act = distinct (act0 @ [idx ?l])"
        by (rule mset_eq_imp_distinct_iff)
      then have "distinct act" using IH fresh by simp
      moreover have "set act = insert (idx ?l) (set act0)"
        using set_active_after [of m0 act0 ?l] True act by simp
      ultimately show ?thesis using IH il tk True by auto
    next
      case False
      have "mset act = mset (filter (\<lambda>r. r \<noteq> idx ?l) act0)"
        using mset_active_after [of m0 act0 ?l] False act by simp
      then have "distinct act = distinct (filter (\<lambda>r. r \<noteq> idx ?l) act0)"
        by (rule mset_eq_imp_distinct_iff)
      then have "distinct act" using IH by simp
      moreover have "set act = set act0 - {idx ?l}"
        using set_active_after [of m0 act0 ?l] False act by simp
      ultimately show ?thesis using IH tk by auto
    qed
  qed
qed

lemma refused_at_unfold:
  assumes "before_event ts ms k = (m, act, tns)"
  shows "refused_at ts ms k i =
     (\<not> isSkip (m ! idx (event_list ms ! k))
      \<and> (\<exists>j<length (active_after m act (event_list ms ! k)).
            active_after m act (event_list ms ! k) ! j = i
            \<and> refused (active_after m act (event_list ms ! k)) m (map clear tns) j))"
  by (auto simp: refused_at_def assms Let_def list_ex_iff)

text \<open>
  A candidate is marked after an event iff it was marked before it or is refused at it.
\<close>

lemma before_event_Suc_marks:
  assumes "k < length (event_list ms)" "i < length ms"
  shows "isConflict (fst (before_event ts ms (Suc k)) ! i)
     = (isConflict (fst (before_event ts ms k) ! i) \<or> refused_at ts ms k i)"
proof -
  obtain m act tns where b: "before_event ts ms k = (m, act, tns)"
    by (cases "before_event ts ms k") auto
  have len: "i < length m" using before_event_fields(1) [OF b assms(2)] assms(2) by simp
  show ?thesis
  proof (cases "isSkip (m ! idx (event_list ms ! k))")
    case True
    then show ?thesis
      using refused_at_unfold [OF b, of i]
      by (simp add: before_event_Suc [OF assms(1)] b sweep_event_unfold)
  next
    case False
    then show ?thesis
      using refused_at_unfold [OF b, of i]
        evaluate_marks [OF len, of "active_after m act (event_list ms ! k)" "map clear tns"]
      by (simp add: before_event_Suc [OF assms(1)] b sweep_event_unfold)
  qed
qed

lemma before_event_marks:
  assumes "k \<le> length (event_list ms)" "i < length ms"
  shows "isConflict (fst (before_event ts ms k) ! i)
     = (isConflict (ms ! i) \<or> (\<exists>k'<k. refused_at ts ms k' i))"
  using assms(1)
proof (induction k)
  case 0
  show ?case by (simp add: before_event_0)
next
  case (Suc k)
  then have k: "k < length (event_list ms)" by simp
  have "(\<exists>k'<Suc k. refused_at ts ms k' i)
      = ((\<exists>k'<k. refused_at ts ms k' i) \<or> refused_at ts ms k i)"
    using less_Suc_eq by auto
  then show ?case
    using before_event_Suc_marks [OF k assms(2), of ts] Suc.IH k by simp
qed

text \<open>The mark of a candidate in the result: its mark at the call, or a refusal at an event.\<close>

lemma swept_candidate:
  assumes "i < length ms"
  shows "fst (foldl sweep_event (ms, [], ts) (event_list ms)) ! i
     = (ms ! i)\<lparr>isConflict := isConflict (ms ! i)
          \<or> list_ex (\<lambda>k. refused_at ts ms k i) [0..<length (event_list ms)]\<rparr>"
proof -
  let ?M = "fst (before_event ts ms (length (event_list ms)))"
  obtain m act tns where b: "before_event ts ms (length (event_list ms)) = (m, act, tns)"
    by (cases "before_event ts ms (length (event_list ms))") auto
  have "marked_from (ms ! i) (?M ! i)"
    using before_event_fields(2) [OF b assms] b by simp
  then have "?M ! i = (ms ! i)\<lparr>isConflict := isConflict (?M ! i)\<rparr>"
    by (rule marked_from_fields(6))
  moreover have "isConflict (?M ! i)
      = (isConflict (ms ! i) \<or> list_ex (\<lambda>k. refused_at ts ms k i) [0..<length (event_list ms)])"
    using before_event_marks [OF _ assms, of "length (event_list ms)" ts]
    by (auto simp: list_ex_iff)
  ultimately show ?thesis by (simp add: before_event_all)
qed

lemma createReserves_swept:
  "fst (createReserves ts ms) =
     array_sort byStartAt
       (map (\<lambda>l. (array_sort sortReserveProgram ms ! idx l)
                    \<lparr>isConflict := isConflict (array_sort sortReserveProgram ms ! idx l)
                       \<or> list_ex (\<lambda>k. refused_at ts (array_sort sortReserveProgram ms) k (idx l))
                            [0..<length (event_list (array_sort sortReserveProgram ms))]\<rparr>)
          (filter isStart (event_list (array_sort sortReserveProgram ms))))"
proof -
  let ?S = "array_sort sortReserveProgram ms"
  have "map (\<lambda>l. fst (foldl sweep_event (?S, [], ts) (event_list ?S)) ! idx l)
          (filter isStart (event_list ?S))
      = map (\<lambda>l. (?S ! idx l)\<lparr>isConflict := isConflict (?S ! idx l)
                       \<or> list_ex (\<lambda>k. refused_at ts ?S k (idx l))
                            [0..<length (event_list ?S)]\<rparr>)
          (filter isStart (event_list ?S))"
    using swept_candidate [of _ ?S ts] event_list_idx [of _ ?S] by simp
  then show ?thesis by (simp only: fst_createReserves)
qed

subsection \<open>The active set is sorted in the authority order\<close>

lemma hasAuthority_marked: "marked_from a b \<Longrightarrow> hasAuthority b = hasAuthority a"
  using marked_from_fields(3,4,5) [of a b] by (simp add: hasAuthority_def)

lemma sortReserveProgram_marked:
  "marked_from a a' \<Longrightarrow> marked_from b b' \<Longrightarrow>
   sortReserveProgram a' b' = sortReserveProgram a b"
  using marked_from_fields(3,4,5) [of a a'] marked_from_fields(3,4,5) [of b b']
  by (simp add: sortReserveProgram_def)

lemma before_event_sorted:
  assumes auth: "\<forall>x\<in>set ms. hasAuthority x"
    and k: "k < length (event_list ms)" and b: "before_event ts ms k = (m, act, tns)"
  shows "sorted_wrt (\<lambda>a b. sortReserveProgram (ms ! a) (ms ! b) \<le> 0)
           (active_after m act (event_list ms ! k))"
proof -
  let ?l = "event_list ms ! k"
  have len: "length m = length ms"
    using before_event_marked [of ms ts k] b by (simp add: list_all2_lengthD)
  have mf: "marked_from (ms ! i) (m ! i)" if "i < length ms" for i
    using before_event_fields(2) [OF b that] .
  have valid: "\<forall>i\<in>set act. i < length m"
    using before_event_active [OF _ b] k len by simp
  have il: "idx ?l < length m" using k event_list_idx [of ?l ms] len by simp
  have "\<forall>x\<in>set m. hasAuthority x"
  proof
    fix x assume "x \<in> set m"
    then obtain i where i: "i < length m" "x = m ! i" by (auto simp: in_set_conv_nth)
    then have "hasAuthority x = hasAuthority (ms ! i)"
      using hasAuthority_marked [OF mf [of i]] len by simp
    then show "hasAuthority x" using auth i len by simp
  qed
  then have s: "sorted_wrt (\<lambda>a b. sortReserveProgram (m ! a) (m ! b) \<le> 0)
      (active_after m act ?l)"
    using valid il by (rule sorted_active_after)
  have in_range: "\<forall>a\<in>set (active_after m act ?l). a < length ms"
    using valid il len by (auto simp: set_active_after split: if_splits)
  show ?thesis
  proof (rule sorted_wrt_mono_rel [OF _ s])
    fix a b
    assume "a \<in> set (active_after m act ?l)" "b \<in> set (active_after m act ?l)"
      "sortReserveProgram (m ! a) (m ! b) \<le> 0"
    then show "sortReserveProgram (ms ! a) (ms ! b) \<le> 0"
      using in_range sortReserveProgram_marked [OF mf [of a] mf [of b]] by simp
  qed
qed

subsection \<open>The candidates in flight\<close>

lemma make_list_filter_idx:
  "filter (\<lambda>l. idx l = i) (make_list ms k pidx) = []
   \<or> (\<exists>m\<in>set ms. filter (\<lambda>l. idx l = i) (make_list ms k pidx)
        = [\<lparr>time = startAt (program m), isStart = True, idx = i\<rparr>,
           \<lparr>time = endAt (program m), isStart = False, idx = i\<rparr>])"
proof (induction ms arbitrary: k pidx)
  case Nil
  show ?case by simp
next
  case (Cons m ms)
  have rest: "filter (\<lambda>l. idx l = k) (make_list ms (Suc k) q) = []" for q
    unfolding filter_empty_conv using make_list_idx [of _ ms "Suc k" q] by fastforce
  show ?case
  proof (cases "pidx (id_p (program m)) = None")
    case False
    then show ?thesis using Cons.IH [of "Suc k" pidx] by auto
  next
    case True
    show ?thesis
    proof (cases "i = k")
      case True
      then show ?thesis using \<open>pidx (id_p (program m)) = None\<close> rest by simp
    next
      case False
      have "filter (\<lambda>l. idx l = i) (make_list ms (Suc k) (pidx(id_p (program m) \<mapsto> True))) = []
        \<or> (\<exists>m'\<in>set ms.
             filter (\<lambda>l. idx l = i) (make_list ms (Suc k) (pidx(id_p (program m) \<mapsto> True)))
             = [\<lparr>time = startAt (program m'), isStart = True, idx = i\<rparr>,
                \<lparr>time = endAt (program m'), isStart = False, idx = i\<rparr>])"
        by (rule Cons.IH)
      then show ?thesis
        using \<open>pidx (id_p (program m)) = None\<close> False by auto
    qed
  qed
qed

lemma event_list_filter_idx:
  assumes "\<forall>m\<in>set ms. startAt (program m) \<le> endAt (program m)"
  shows "filter (\<lambda>l. idx l = i) (event_list ms) = []
    \<or> (\<exists>s e. filter (\<lambda>l. idx l = i) (event_list ms) = [s, e] \<and> isStart s \<and> \<not> isStart e)"
proof -
  have "event_list ms = sort_key time (make_list ms 0 Map.empty)"
    by (simp add: event_list_def array_sort_key)
  then have eq: "filter (\<lambda>l. idx l = i) (event_list ms)
      = sort_key time (filter (\<lambda>l. idx l = i) (make_list ms 0 Map.empty))"
    by (simp add: filter_sort)
  from make_list_filter_idx [of i ms 0 Map.empty] show ?thesis
  proof
    assume "filter (\<lambda>l. idx l = i) (make_list ms 0 Map.empty) = []"
    then show ?thesis using eq by simp
  next
    assume "\<exists>m\<in>set ms. filter (\<lambda>l. idx l = i) (make_list ms 0 Map.empty)
        = [\<lparr>time = startAt (program m), isStart = True, idx = i\<rparr>,
           \<lparr>time = endAt (program m), isStart = False, idx = i\<rparr>]"
    then obtain m where m: "m \<in> set ms"
      and f: "filter (\<lambda>l. idx l = i) (make_list ms 0 Map.empty)
        = [\<lparr>time = startAt (program m), isStart = True, idx = i\<rparr>,
           \<lparr>time = endAt (program m), isStart = False, idx = i\<rparr>]" by blast
    have "startAt (program m) \<le> endAt (program m)" using assms m by simp
    then have "filter (\<lambda>l. idx l = i) (event_list ms)
        = [\<lparr>time = startAt (program m), isStart = True, idx = i\<rparr>,
           \<lparr>time = endAt (program m), isStart = False, idx = i\<rparr>]"
      using eq f by simp
    then show ?thesis by simp
  qed
qed

lemma prefix_last_start:
  assumes "P @ Q = [] \<or> (\<exists>s e. P @ Q = [s, e] \<and> isStart s \<and> \<not> isStart e)"
  shows "(P \<noteq> [] \<and> isStart (last P)) = ((\<exists>l\<in>set P. isStart l) \<and> (\<forall>l\<in>set P. isStart l))"
proof (cases P)
  case Nil
  then show ?thesis by simp
next
  case (Cons a P')
  show ?thesis
  proof (cases P')
    case Nil
    then show ?thesis using Cons by simp
  next
    case (Cons b P'')
    then show ?thesis using assms \<open>P = a # P'\<close> by auto
  qed
qed

lemma before_event_last:
  assumes "k \<le> length (event_list ms)" "before_event ts ms k = (m, act, tns)"
  shows "set act = {i. \<not> isSkip (ms ! i)
      \<and> filter (\<lambda>l. idx l = i) (take k (event_list ms)) \<noteq> []
      \<and> isStart (last (filter (\<lambda>l. idx l = i) (take k (event_list ms))))}"
  using assms
proof (induction k arbitrary: m act tns)
  case 0
  then show ?case by (simp add: before_event_0)
next
  case (Suc k)
  let ?l = "event_list ms ! k"
  have k: "k < length (event_list ms)" using Suc.prems(1) by simp
  obtain m0 act0 tns0 where b: "before_event ts ms k = (m0, act0, tns0)"
    by (cases "before_event ts ms k") auto
  have IH: "set act0 = {i. \<not> isSkip (ms ! i)
      \<and> filter (\<lambda>l. idx l = i) (take k (event_list ms)) \<noteq> []
      \<and> isStart (last (filter (\<lambda>l. idx l = i) (take k (event_list ms))))}"
    using Suc.IH [OF _ b] k by simp
  have il: "idx ?l < length ms" using k event_list_idx [of ?l ms] by simp
  have skip: "isSkip (m0 ! idx ?l) = isSkip (ms ! idx ?l)"
    using before_event_fields(3) [OF b il] .
  have step: "sweep_event (m0, act0, tns0) ?l = (m, act, tns)"
    using before_event_Suc [OF k, of ts] b Suc.prems(2) by simp
  have tk: "take (Suc k) (event_list ms) = take k (event_list ms) @ [?l]"
    using k by (simp add: take_Suc_conv_app_nth)
  show ?case
  proof (cases "isSkip (ms ! idx ?l)")
    case True
    then have "act = act0" using step skip by (simp add: sweep_event_unfold)
    then show ?thesis using IH True by (auto simp: tk)
  next
    case False
    then have "act = active_after m0 act0 ?l"
      using step skip by (auto simp: sweep_event_unfold)
    then have "set act = (if isStart ?l then insert (idx ?l) (set act0) else set act0 - {idx ?l})"
      by (simp add: set_active_after)
    then show ?thesis using IH False by (auto simp: tk)
  qed
qed

lemma before_event_not_skipped:
  assumes "k \<le> length (event_list ms)" "before_event ts ms k = (m, act, tns)" "i \<in> set act"
  shows "\<not> isSkip (ms ! i)"
  using before_event_last [OF assms(1,2)] assms(3) by simp

lemma set_in_flight:
  "set (in_flight ms past) = {i. \<not> isSkip (ms ! i) \<and> (\<exists>l\<in>set past. isStart l \<and> idx l = i)
      \<and> \<not> (\<exists>l\<in>set past. \<not> isStart l \<and> idx l = i)}"
  by (auto simp: in_flight_def list_ex_iff)

lemma before_event_in_flight:
  assumes wf: "\<forall>m\<in>set ms. startAt (program m) \<le> endAt (program m)"
    and k: "k \<le> length (event_list ms)" and b: "before_event ts ms k = (m, act, tns)"
  shows "set act = set (in_flight ms (take k (event_list ms)))"
proof -
  let ?past = "take k (event_list ms)"
  have "(filter (\<lambda>l. idx l = i) ?past \<noteq> [] \<and> isStart (last (filter (\<lambda>l. idx l = i) ?past)))
      = ((\<exists>l\<in>set ?past. isStart l \<and> idx l = i) \<and> \<not> (\<exists>l\<in>set ?past. \<not> isStart l \<and> idx l = i))"
    for i
  proof -
    have "filter (\<lambda>l. idx l = i) ?past @ filter (\<lambda>l. idx l = i) (drop k (event_list ms))
        = filter (\<lambda>l. idx l = i) (event_list ms)"
      by (simp only: filter_append [symmetric] append_take_drop_id)
    then have "(filter (\<lambda>l. idx l = i) ?past \<noteq> []
          \<and> isStart (last (filter (\<lambda>l. idx l = i) ?past)))
        = ((\<exists>l\<in>set (filter (\<lambda>l. idx l = i) ?past). isStart l)
           \<and> (\<forall>l\<in>set (filter (\<lambda>l. idx l = i) ?past). isStart l))"
      using event_list_filter_idx [OF wf, of i]
        prefix_last_start [of "filter (\<lambda>l. idx l = i) ?past"
          "filter (\<lambda>l. idx l = i) (drop k (event_list ms))"]
      by simp
    then show ?thesis by auto
  qed
  then show ?thesis
    by (simp add: before_event_last [OF k b] set_in_flight)
qed

subsection \<open>The candidates of the active set, one after the other\<close>

lemma length_tryTuners: "tryTuners ts p = Some ts' \<Longrightarrow> length ts' = length ts"
  by (induction ts arbitrary: ts') (auto split: option.splits)

lemma length_snd_evaluate: "length (snd (evaluate act m ts)) = length ts"
proof (induction act m ts rule: evaluate.induct)
  case (1 matches tuners)
  show ?case by simp
next
  case (2 r rs matches tuners)
  show ?case
  proof (cases "isSkip (matches ! r)")
    case True
    then show ?thesis using 2(1) by simp
  next
    case False
    show ?thesis
    proof (cases "tryTuners tuners (program (matches ! r))")
      case None
      then show ?thesis using False 2(2) by simp
    next
      case (Some ts')
      then show ?thesis using False 2(3) [OF False Some] length_tryTuners [OF Some] by simp
    qed
  qed
qed

lemma length_turn: "length (turn act m ts j) = length ts"
  by (simp add: turn_def length_snd_evaluate)

lemma turn_all: "turn act m ts (length act) = snd (evaluate act m ts)"
  by (simp add: turn_def)

lemma turn_step:
  assumes "j < length act" "\<not> isSkip (m ! (act ! j))" "\<not> refused act m ts j"
  shows "\<exists>n<length ts.
      list_all (\<lambda>t. tryAdd t (program (m ! (act ! j))) = None) (take n (turn act m ts j))
      \<and> tryAdd (turn act m ts j ! n) (program (m ! (act ! j))) \<noteq> None
      \<and> turn act m ts (Suc j)
          = (turn act m ts j)[n := the (tryAdd (turn act m ts j ! n) (program (m ! (act ! j))))]"
proof -
  let ?p = "program (m ! (act ! j))"
  have "tryTuners (turn act m ts j) ?p \<noteq> None"
    using assms(2,3) by (simp add: refused_def tryTuners_None)
  then obtain ts' where s: "tryTuners (turn act m ts j) ?p = Some ts'" by auto
  have nxt: "turn act m ts (Suc j) = ts'"
    using turn_Suc [OF assms(1), of m ts] assms(2,3) s by simp
  from tryTuners_first_fit [OF s] obtain n where
    n: "n < length (turn act m ts j)"
      "list_all (\<lambda>t. tryAdd t ?p = None) (take n (turn act m ts j))"
      "tryAdd (turn act m ts j ! n) ?p = Some (ts' ! n)"
      "ts' = (turn act m ts j)[n := ts' ! n]" by blast
  have "n < length ts" using n(1) by (simp add: length_turn)
  moreover have "turn act m ts (Suc j)
      = (turn act m ts j)[n := the (tryAdd (turn act m ts j ! n) ?p)]"
    using n(3,4) nxt by simp
  ultimately show ?thesis using n(2,3) by auto
qed

lemma turn_stay:
  assumes "j < length act" "isSkip (m ! (act ! j)) \<or> refused act m ts j"
  shows "turn act m ts (Suc j) = turn act m ts j"
  using turn_Suc [OF assms(1), of m ts] assms(2) by auto

lemma evaluate_marks_nth:
  assumes "distinct act" "j < length act" "act ! j < length m"
  shows "isConflict (fst (evaluate act m ts) ! (act ! j))
     = (isConflict (m ! (act ! j)) \<or> refused act m ts j)"
proof -
  have "(\<exists>j'<length act. act ! j' = act ! j \<and> refused act m ts j') = refused act m ts j"
    using assms(1,2) nth_eq_iff_index_eq by blast
  then show ?thesis using evaluate_marks [OF assms(3), of act ts] by simp
qed

lemma turn_cleared_held:
  assumes "j \<le> length act"
  shows "mset (concat (map held (turn act m (map clear tns) j)))
     = mset (map (\<lambda>j'. program (m ! (act ! j')))
           (filter (\<lambda>j'. \<not> isSkip (m ! (act ! j')) \<and> \<not> refused act m (map clear tns) j')
              [0..<j]))"
proof -
  have "concat (map held (map clear tns)) = []" by (induction tns) (simp_all add: clear_def)
  then show ?thesis using turn_held [OF assms, of m "map clear tns"] by simp
qed

text \<open>
  A candidate is refused only for the channel type of the tuners or for the programs
  of candidates before it in the active set.
\<close>

lemma refused_cause:
  assumes "j \<le> length act" "refused act m (map clear tns) j"
    "t \<in> set (turn act m (map clear tns) j)"
  shows "channelType (program (m ! (act ! j))) \<notin> set (types t)
    \<or> (\<exists>j'<j. \<not> refused act m (map clear tns) j'
          \<and> program (m ! (act ! j')) \<in> set (held t)
          \<and> overlaps (program (m ! (act ! j))) (program (m ! (act ! j'))))"
proof (cases "channelType (program (m ! (act ! j))) \<in> set (types t)")
  case False
  then show ?thesis by simp
next
  case True
  have "tryAdd t (program (m ! (act ! j))) = None"
    using assms(2,3) by (simp add: refused_def list_all_iff)
  then obtain q where q: "q \<in> set (held t)" "overlaps (program (m ! (act ! j))) q"
    using True by (auto simp: tryAdd_def list_ex_iff split: if_splits)
  have "q \<in> set (concat (map held (turn act m (map clear tns) j)))"
    using q(1) assms(3) by auto
  then have "q \<in># mset (concat (map held (turn act m (map clear tns) j)))" by simp
  then have "q \<in> set (map (\<lambda>j'. program (m ! (act ! j')))
           (filter (\<lambda>j'. \<not> isSkip (m ! (act ! j')) \<and> \<not> refused act m (map clear tns) j')
              [0..<j]))"
    by (simp only: turn_cleared_held [OF assms(1)] set_mset_mset)
  then obtain j' where "j' < j" "\<not> refused act m (map clear tns) j'"
    "q = program (m ! (act ! j'))" by auto
  then show ?thesis using q by blast
qed

subsection \<open>One event of the sweep\<close>

lemma sweep_skipped:
  assumes "k < length (event_list ms)" "isSkip (ms ! idx (event_list ms ! k))"
  shows "before_event ts ms (Suc k) = before_event ts ms k"
proof -
  obtain m act tns where b: "before_event ts ms k = (m, act, tns)"
    by (cases "before_event ts ms k") auto
  have "idx (event_list ms ! k) < length ms" using assms(1) event_list_idx [of _ ms] by simp
  then have "isSkip (m ! idx (event_list ms ! k))"
    using before_event_fields(3) [OF b] assms(2) by simp
  then show ?thesis by (simp add: before_event_Suc [OF assms(1)] b sweep_event_unfold)
qed

lemma tryAdd_Some: "tryAdd t p \<noteq> None \<Longrightarrow> the (tryAdd t p) = t\<lparr>held := held t @ [p]\<rparr>"
  by (simp add: tryAdd_def split: if_splits)

lemma sweep_step:
  assumes k: "k < length (event_list ms)" and b: "before_event ts ms k = (m, act, tns)"
    and ns: "\<not> isSkip (ms ! idx (event_list ms ! k))"
    and a: "act' = active_after m act (event_list ms ! k)" and c: "cl = map clear tns"
  shows sweep_next: "before_event ts ms (Suc k)
        = (fst (evaluate act' m cl), act', turn act' m cl (length act'))"
    and sweep_set: "set act' = (if isStart (event_list ms ! k)
          then insert (idx (event_list ms ! k)) (set act) else set act - {idx (event_list ms ! k)})"
    and sweep_distinct: "distinct act'"
    and sweep_valid: "\<forall>i\<in>set act'. i < length ms \<and> \<not> isSkip (ms ! i)"
    and sweep_length: "length m = length ms"
    and sweep_refused_at: "refused_at ts ms k i
        = (\<exists>j<length act'. act' ! j = i \<and> refused act' m cl j)"
    and sweep_mark: "i < length ms \<Longrightarrow> fst (before_event ts ms (Suc k)) ! i
        = (m ! i)\<lparr>isConflict := isConflict (m ! i) \<or> refused_at ts ms k i\<rparr>"
proof -
  let ?l = "event_list ms ! k"
  have il: "idx ?l < length ms" using k event_list_idx [of ?l ms] by simp
  have ns': "\<not> isSkip (m ! idx ?l)" using before_event_fields(3) [OF b il] ns by simp
  show nxt: "before_event ts ms (Suc k)
        = (fst (evaluate act' m cl), act', turn act' m cl (length act'))"
    using ns' by (simp add: before_event_Suc [OF k] b sweep_event_unfold a c turn_all)
  show "set act' = (if isStart ?l then insert (idx ?l) (set act) else set act - {idx ?l})"
    by (simp only: a set_active_after)
  have act: "(\<forall>i\<in>set act'. i < length ms) \<and> distinct act'"
    using before_event_active [OF _ nxt] k by simp
  then show "distinct act'" by simp
  show "\<forall>i\<in>set act'. i < length ms \<and> \<not> isSkip (ms ! i)"
    using act before_event_not_skipped [OF _ nxt] k by auto
  show len: "length m = length ms" by (rule before_event_fields(1) [OF b il])
  show ra: "refused_at ts ms k i = (\<exists>j<length act'. act' ! j = i \<and> refused act' m cl j)"
    using refused_at_unfold [OF b, of i] ns' by (simp add: a c)
  assume i: "i < length ms"
  have "marked_from (m ! i) (fst (evaluate act' m cl) ! i)"
    using evaluate_marked [of m act' cl] i len by (simp add: list_all2_nthD)
  then have "fst (evaluate act' m cl) ! i
      = (m ! i)\<lparr>isConflict := isConflict (fst (evaluate act' m cl) ! i)\<rparr>"
    by (rule marked_from_fields(6))
  moreover have "isConflict (fst (evaluate act' m cl) ! i)
      = (isConflict (m ! i) \<or> refused_at ts ms k i)"
    using evaluate_marks [where i = i and m = m and act = act' and ts = cl] i len ra by simp
  ultimately show "fst (before_event ts ms (Suc k)) ! i
      = (m ! i)\<lparr>isConflict := isConflict (m ! i) \<or> refused_at ts ms k i\<rparr>"
    by (simp add: nxt)
qed

lemma sweep_candidate:
  assumes k: "k < length (event_list ms)" and b: "before_event ts ms k = (m, act, tns)"
    and ns: "\<not> isSkip (ms ! idx (event_list ms ! k))"
    and a: "act' = active_after m act (event_list ms ! k)" and c: "cl = map clear tns"
    and j: "j < length act'"
  shows sweep_same: "program (m ! (act' ! j)) = program (ms ! (act' ! j))"
    and sweep_refused: "refused act' m cl j
        = list_all (\<lambda>t. tryAdd t (program (ms ! (act' ! j))) = None) (turn act' m cl j)"
    and sweep_stay: "refused act' m cl j \<Longrightarrow> turn act' m cl (Suc j) = turn act' m cl j"
    and sweep_place: "\<not> refused act' m cl j \<Longrightarrow> \<exists>n<length tns.
          list_all (\<lambda>t. tryAdd t (program (ms ! (act' ! j))) = None) (take n (turn act' m cl j))
          \<and> tryAdd (turn act' m cl j ! n) (program (ms ! (act' ! j))) \<noteq> None
          \<and> turn act' m cl (Suc j) = (turn act' m cl j)
               [n := (turn act' m cl j ! n)
                  \<lparr>held := held (turn act' m cl j ! n) @ [program (ms ! (act' ! j))]\<rparr>]"
    and sweep_mark_nth: "isConflict (fst (before_event ts ms (Suc k)) ! (act' ! j))
        = (isConflict (m ! (act' ! j)) \<or> refused act' m cl j)"
proof -
  have v: "act' ! j < length ms" "\<not> isSkip (ms ! (act' ! j))"
    using sweep_valid [OF k b ns a c] j by simp_all
  have len: "length m = length ms" by (rule sweep_length [OF k b ns a c])
  show p: "program (m ! (act' ! j)) = program (ms ! (act' ! j))"
    by (rule before_event_fields(4) [OF b v(1)])
  have s: "\<not> isSkip (m ! (act' ! j))" using before_event_fields(3) [OF b v(1)] v(2) by simp
  show "refused act' m cl j
      = list_all (\<lambda>t. tryAdd t (program (ms ! (act' ! j))) = None) (turn act' m cl j)"
    using s p by (simp add: refused_def)
  show "refused act' m cl j \<Longrightarrow> turn act' m cl (Suc j) = turn act' m cl j"
    using turn_stay [OF j, where m = m and ts = cl] by simp
  show "isConflict (fst (before_event ts ms (Suc k)) ! (act' ! j))
      = (isConflict (m ! (act' ! j)) \<or> refused act' m cl j)"
    using evaluate_marks_nth [OF sweep_distinct [OF k b ns a c] j, where m = m and ts = cl] v(1) len
    by (simp add: sweep_next [OF k b ns a c])
  assume nr: "\<not> refused act' m cl j"
  from turn_step [OF j s nr] obtain n where n: "n < length cl"
    "list_all (\<lambda>t. tryAdd t (program (m ! (act' ! j))) = None) (take n (turn act' m cl j))"
    "tryAdd (turn act' m cl j ! n) (program (m ! (act' ! j))) \<noteq> None"
    "turn act' m cl (Suc j) = (turn act' m cl j)
        [n := the (tryAdd (turn act' m cl j ! n) (program (m ! (act' ! j))))]"
    by blast
  have "n < length tns" using n(1) c by simp
  then show "\<exists>n<length tns.
          list_all (\<lambda>t. tryAdd t (program (ms ! (act' ! j))) = None) (take n (turn act' m cl j))
          \<and> tryAdd (turn act' m cl j ! n) (program (ms ! (act' ! j))) \<noteq> None
          \<and> turn act' m cl (Suc j) = (turn act' m cl j)
               [n := (turn act' m cl j ! n)
                  \<lparr>held := held (turn act' m cl j ! n) @ [program (ms ! (act' ! j))]\<rparr>]"
    using n(2,3,4) tryAdd_Some [OF n(3)] unfolding p by auto
qed

lemma sweep_held:
  assumes k: "k < length (event_list ms)" and b: "before_event ts ms k = (m, act, tns)"
    and ns: "\<not> isSkip (ms ! idx (event_list ms ! k))"
    and a: "act' = active_after m act (event_list ms ! k)" and c: "cl = map clear tns"
    and j: "j \<le> length act'"
  shows "mset (concat (map held (turn act' m cl j)))
     = mset (map (\<lambda>j'. program (ms ! (act' ! j')))
           (filter (\<lambda>j'. \<not> refused act' m cl j') [0..<j]))"
proof -
  have v: "\<And>j'. j' < j \<Longrightarrow> act' ! j' < length ms \<and> \<not> isSkip (ms ! (act' ! j'))"
    using sweep_valid [OF k b ns a c] j by simp
  have f: "filter (\<lambda>j'. \<not> isSkip (m ! (act' ! j')) \<and> \<not> refused act' m cl j') [0..<j]
      = filter (\<lambda>j'. \<not> refused act' m cl j') [0..<j]"
    using v before_event_fields(3) [OF b] by (intro filter_cong) auto
  have mp: "map (\<lambda>j'. program (m ! (act' ! j'))) (filter (\<lambda>j'. \<not> refused act' m cl j') [0..<j])
      = map (\<lambda>j'. program (ms ! (act' ! j'))) (filter (\<lambda>j'. \<not> refused act' m cl j') [0..<j])"
    using v before_event_fields(4) [OF b] by (intro map_cong) auto
  have "mset (concat (map held (turn act' m cl j)))
      = mset (map (\<lambda>j'. program (m ! (act' ! j')))
           (filter (\<lambda>j'. \<not> isSkip (m ! (act' ! j')) \<and> \<not> refused act' m cl j') [0..<j]))"
    unfolding c by (rule turn_cleared_held [OF j])
  also have "\<dots> = mset (map (\<lambda>j'. program (m ! (act' ! j')))
           (filter (\<lambda>j'. \<not> refused act' m cl j') [0..<j]))"
    by (simp only: f)
  also have "\<dots> = mset (map (\<lambda>j'. program (ms ! (act' ! j')))
           (filter (\<lambda>j'. \<not> refused act' m cl j') [0..<j]))"
    by (simp only: mp)
  finally show ?thesis .
qed

lemma sweep_cause:
  assumes k: "k < length (event_list ms)" and b: "before_event ts ms k = (m, act, tns)"
    and ns: "\<not> isSkip (ms ! idx (event_list ms ! k))"
    and a: "act' = active_after m act (event_list ms ! k)" and c: "cl = map clear tns"
    and j: "j < length act'" and r: "refused act' m cl j" and t: "t \<in> set (turn act' m cl j)"
  shows "channelType (program (ms ! (act' ! j))) \<notin> set (types t)
    \<or> (\<exists>j'<j. \<not> refused act' m cl j'
          \<and> program (ms ! (act' ! j')) \<in> set (held t)
          \<and> overlaps (program (ms ! (act' ! j))) (program (ms ! (act' ! j'))))"
proof -
  have p: "\<And>j'. j' \<le> j \<Longrightarrow> program (m ! (act' ! j')) = program (ms ! (act' ! j'))"
    using sweep_same [OF k b ns a c] j by simp
  have "j \<le> length act'" using j by simp
  from refused_cause [OF this r [unfolded c] t [unfolded c]] show ?thesis
    using p by (auto simp: c)
qed

subsection \<open>The sweep of createReserves\<close>

lemma createReserves_before_event:
  "createReserves ts ms =
     (array_sort byStartAt
        (map (\<lambda>l. fst (before_event ts (array_sort sortReserveProgram ms)
                      (length (event_list (array_sort sortReserveProgram ms)))) ! idx l)
           (filter isStart (event_list (array_sort sortReserveProgram ms)))),
      snd (snd (before_event ts (array_sort sortReserveProgram ms)
                  (length (event_list (array_sort sortReserveProgram ms))))))"
  by (simp add: createReserves_def Let_def case_prod_beta before_event_all)

text \<open>
  C1, as the code has it. The candidates carry the identifier of their origin; \<open>S\<close> is
  \<open>matches\<close> sorted in the authority order and \<open>evs\<close> the events of the sweep. At the
  \<open>k\<close>-th event, reached with the marks \<open>m\<close>, the active set \<open>act\<close> and the tuners \<open>tns\<close>:
  when the candidate of the event is skipped nothing changes. Otherwise the active set
  gets or loses the candidate of the event and is sorted in the authority order; every
  tuner is cleared; the candidates of the active set are taken in that order, each
  one offered to the tuners as the candidates before it have left them, and placed in
  the first tuner whose \<open>tryAdd\<close> accepts it; a candidate is refused when every
  \<open>tryAdd\<close> fails, and then the tuners stay as they are. A candidate refused at the
  event is marked \<open>isConflict\<close>; every other candidate keeps the mark it had, set or
  not, and nothing else of a candidate changes. So in the result of \<open>createReserves\<close>
  a candidate is in conflict when it was refused at some event of the sweep (or was
  marked when \<open>createReserves\<close> was called). The sweep starts from the sorted
  candidates, no active candidate and the tuners as they are, and \<open>createReserves\<close>
  returns the kept candidates as the last event leaves them, sorted by \<open>startAt\<close>.
\<close>

theorem C1_sweep_marks:
  assumes auth: "\<forall>m\<in>set ms. hasAuthority m"
    and S: "S = array_sort sortReserveProgram ms" and evs: "evs = event_list S"
  shows "(\<forall>k<length evs. case before_event ts S k of (m, act, tns) \<Rightarrow>
      if isSkip (S ! idx (evs ! k)) then before_event ts S (Suc k) = (m, act, tns)
      else
        let act' = active_after m act (evs ! k); cl = map clear tns in
          set act' = (if isStart (evs ! k) then insert (idx (evs ! k)) (set act)
                      else set act - {idx (evs ! k)})
        \<and> sorted_wrt (\<lambda>a b. sortReserveProgram (S ! a) (S ! b) \<le> 0) act'
        \<and> length cl = length tns \<and> (\<forall>t\<in>set cl. held t = [])
        \<and> turn act' m cl 0 = cl
        \<and> (\<forall>j<length act'.
              refused act' m cl j
                = list_all (\<lambda>t. tryAdd t (program (S ! (act' ! j))) = None) (turn act' m cl j)
              \<and> (if refused act' m cl j then turn act' m cl (Suc j) = turn act' m cl j
                 else \<exists>n<length tns.
                   list_all (\<lambda>t. tryAdd t (program (S ! (act' ! j))) = None)
                     (take n (turn act' m cl j))
                   \<and> tryAdd (turn act' m cl j ! n) (program (S ! (act' ! j))) \<noteq> None
                   \<and> turn act' m cl (Suc j) = (turn act' m cl j)
                        [n := (turn act' m cl j ! n)
                           \<lparr>held := held (turn act' m cl j ! n) @ [program (S ! (act' ! j))]\<rparr>]))
        \<and> before_event ts S (Suc k)
            = (fst (evaluate act' m cl), act', turn act' m cl (length act'))
        \<and> (\<forall>i<length S. refused_at ts S k i
              = (\<exists>j<length act'. act' ! j = i \<and> refused act' m cl j))
        \<and> (\<forall>i<length S. fst (before_event ts S (Suc k)) ! i
              = (m ! i)\<lparr>isConflict := isConflict (m ! i) \<or> refused_at ts S k i\<rparr>))
    \<and> fst (createReserves ts ms) =
        array_sort byStartAt
          (map (\<lambda>l. (S ! idx l)\<lparr>isConflict := isConflict (S ! idx l)
                        \<or> list_ex (\<lambda>k. refused_at ts S k (idx l)) [0..<length evs]\<rparr>)
             (filter isStart evs))
    \<and> before_event ts S 0 = (S, [], ts)
    \<and> createReserves ts ms =
        (array_sort byStartAt
           (map (\<lambda>l. fst (before_event ts S (length evs)) ! idx l) (filter isStart evs)),
         snd (snd (before_event ts S (length evs))))"
unfolding evs
proof (intro conjI allI impI)
  show "before_event ts S 0 = (S, [], ts)" by (rule before_event_0)
next
  show "createReserves ts ms =
        (array_sort byStartAt
           (map (\<lambda>l. fst (before_event ts S (length (event_list S))) ! idx l)
              (filter isStart (event_list S))),
         snd (snd (before_event ts S (length (event_list S)))))"
    unfolding S by (rule createReserves_before_event)
next
  show "fst (createReserves ts ms) =
        array_sort byStartAt
          (map (\<lambda>l. (S ! idx l)\<lparr>isConflict := isConflict (S ! idx l)
                        \<or> list_ex (\<lambda>k. refused_at ts S k (idx l)) [0..<length (event_list S)]\<rparr>)
             (filter isStart (event_list S)))"
    unfolding S by (rule createReserves_swept)
next
  fix k assume k: "k < length (event_list S)"
  obtain m act tns where b: "before_event ts S k = (m, act, tns)"
    by (cases "before_event ts S k") auto
  have authS: "\<forall>x\<in>set S. hasAuthority x" using auth by (simp add: S set_array_sort)
  show "case before_event ts S k of (m, act, tns) \<Rightarrow>
      if isSkip (S ! idx (event_list S ! k)) then before_event ts S (Suc k) = (m, act, tns)
      else
        let act' = active_after m act (event_list S ! k); cl = map clear tns in
          set act' = (if isStart (event_list S ! k) then insert (idx (event_list S ! k)) (set act)
                      else set act - {idx (event_list S ! k)})
        \<and> sorted_wrt (\<lambda>a b. sortReserveProgram (S ! a) (S ! b) \<le> 0) act'
        \<and> length cl = length tns \<and> (\<forall>t\<in>set cl. held t = [])
        \<and> turn act' m cl 0 = cl
        \<and> (\<forall>j<length act'.
              refused act' m cl j
                = list_all (\<lambda>t. tryAdd t (program (S ! (act' ! j))) = None) (turn act' m cl j)
              \<and> (if refused act' m cl j then turn act' m cl (Suc j) = turn act' m cl j
                 else \<exists>n<length tns.
                   list_all (\<lambda>t. tryAdd t (program (S ! (act' ! j))) = None)
                     (take n (turn act' m cl j))
                   \<and> tryAdd (turn act' m cl j ! n) (program (S ! (act' ! j))) \<noteq> None
                   \<and> turn act' m cl (Suc j) = (turn act' m cl j)
                        [n := (turn act' m cl j ! n)
                           \<lparr>held := held (turn act' m cl j ! n) @ [program (S ! (act' ! j))]\<rparr>]))
        \<and> before_event ts S (Suc k)
            = (fst (evaluate act' m cl), act', turn act' m cl (length act'))
        \<and> (\<forall>i<length S. refused_at ts S k i
              = (\<exists>j<length act'. act' ! j = i \<and> refused act' m cl j))
        \<and> (\<forall>i<length S. fst (before_event ts S (Suc k)) ! i
              = (m ! i)\<lparr>isConflict := isConflict (m ! i) \<or> refused_at ts S k i\<rparr>)"
  proof (cases "isSkip (S ! idx (event_list S ! k))")
    case True
    then show ?thesis using sweep_skipped [OF k, of ts] by (simp add: b)
  next
    case False
    let ?act' = "active_after m act (event_list S ! k)"
    let ?cl = "map clear tns"
    have a: "?act' = active_after m act (event_list S ! k)" by (rule refl)
    have c: "?cl = map clear tns" by (rule refl)
    note st = k b False a c
    have c1: "set ?act' = (if isStart (event_list S ! k) then insert (idx (event_list S ! k)) (set act)
                      else set act - {idx (event_list S ! k)})"
      by (rule sweep_set [OF st])
    have c2: "sorted_wrt (\<lambda>a b. sortReserveProgram (S ! a) (S ! b) \<le> 0) ?act'"
      by (rule before_event_sorted [OF authS k b])
    have c3: "length ?cl = length tns" by simp
    have c3b: "\<forall>t\<in>set ?cl. held t = []" by (auto simp: clear_def)
    have c4: "turn ?act' m ?cl 0 = ?cl" by (rule turn_0)
    have c5: "\<forall>j<length ?act'.
              refused ?act' m ?cl j
                = list_all (\<lambda>t. tryAdd t (program (S ! (?act' ! j))) = None) (turn ?act' m ?cl j)
              \<and> (if refused ?act' m ?cl j then turn ?act' m ?cl (Suc j) = turn ?act' m ?cl j
                 else \<exists>n<length tns.
                   list_all (\<lambda>t. tryAdd t (program (S ! (?act' ! j))) = None)
                     (take n (turn ?act' m ?cl j))
                   \<and> tryAdd (turn ?act' m ?cl j ! n) (program (S ! (?act' ! j))) \<noteq> None
                   \<and> turn ?act' m ?cl (Suc j) = (turn ?act' m ?cl j)
                        [n := (turn ?act' m ?cl j ! n)
                           \<lparr>held := held (turn ?act' m ?cl j ! n) @ [program (S ! (?act' ! j))]\<rparr>])"
    proof (intro allI impI conjI)
      fix j assume j: "j < length ?act'"
      show "refused ?act' m ?cl j
          = list_all (\<lambda>t. tryAdd t (program (S ! (?act' ! j))) = None) (turn ?act' m ?cl j)"
        by (rule sweep_refused [OF st j])
      show "if refused ?act' m ?cl j then turn ?act' m ?cl (Suc j) = turn ?act' m ?cl j
                 else \<exists>n<length tns.
                   list_all (\<lambda>t. tryAdd t (program (S ! (?act' ! j))) = None)
                     (take n (turn ?act' m ?cl j))
                   \<and> tryAdd (turn ?act' m ?cl j ! n) (program (S ! (?act' ! j))) \<noteq> None
                   \<and> turn ?act' m ?cl (Suc j) = (turn ?act' m ?cl j)
                        [n := (turn ?act' m ?cl j ! n)
                           \<lparr>held := held (turn ?act' m ?cl j ! n) @ [program (S ! (?act' ! j))]\<rparr>]"
        proof (cases "refused ?act' m ?cl j")
        case True
        then show ?thesis using sweep_stay [OF st j True] by (simp only: if_True)
      next
        case False
        then show ?thesis using sweep_place [OF st j False] by (simp only: if_False)
      qed
    qed
    have c6: "before_event ts S (Suc k)
            = (fst (evaluate ?act' m ?cl), ?act', turn ?act' m ?cl (length ?act'))"
      by (rule sweep_next [OF st])
    have c7: "\<forall>i<length S. refused_at ts S k i
              = (\<exists>j<length ?act'. ?act' ! j = i \<and> refused ?act' m ?cl j)"
      using sweep_refused_at [OF st] by simp
    have c8: "\<forall>i<length S. fst (before_event ts S (Suc k)) ! i
              = (m ! i)\<lparr>isConflict := isConflict (m ! i) \<or> refused_at ts S k i\<rparr>"
      using sweep_mark [OF st] by simp
    have all: "set ?act' = (if isStart (event_list S ! k) then insert (idx (event_list S ! k)) (set act)
                      else set act - {idx (event_list S ! k)})
        \<and> sorted_wrt (\<lambda>a b. sortReserveProgram (S ! a) (S ! b) \<le> 0) ?act'
        \<and> length ?cl = length tns \<and> (\<forall>t\<in>set ?cl. held t = [])
        \<and> turn ?act' m ?cl 0 = ?cl
        \<and> (\<forall>j<length ?act'.
              refused ?act' m ?cl j
                = list_all (\<lambda>t. tryAdd t (program (S ! (?act' ! j))) = None) (turn ?act' m ?cl j)
              \<and> (if refused ?act' m ?cl j then turn ?act' m ?cl (Suc j) = turn ?act' m ?cl j
                 else \<exists>n<length tns.
                   list_all (\<lambda>t. tryAdd t (program (S ! (?act' ! j))) = None)
                     (take n (turn ?act' m ?cl j))
                   \<and> tryAdd (turn ?act' m ?cl j ! n) (program (S ! (?act' ! j))) \<noteq> None
                   \<and> turn ?act' m ?cl (Suc j) = (turn ?act' m ?cl j)
                        [n := (turn ?act' m ?cl j ! n)
                           \<lparr>held := held (turn ?act' m ?cl j ! n) @ [program (S ! (?act' ! j))]\<rparr>]))
        \<and> before_event ts S (Suc k)
            = (fst (evaluate ?act' m ?cl), ?act', turn ?act' m ?cl (length ?act'))
        \<and> (\<forall>i<length S. refused_at ts S k i
              = (\<exists>j<length ?act'. ?act' ! j = i \<and> refused ?act' m ?cl j))
        \<and> (\<forall>i<length S. fst (before_event ts S (Suc k)) ! i
              = (m ! i)\<lparr>isConflict := isConflict (m ! i) \<or> refused_at ts S k i\<rparr>)"
      by (intro conjI) (rule c1, rule c2, rule c3, rule c3b, rule c4, rule c5, rule c6, rule c7, rule c8)
    show ?thesis
      by (simp only: b prod.case Let_def False if_False, rule all)
  qed
qed

text \<open>
  The program 1 of the rule 5 and the manual program 2, on one tuner. At the event 1,
  the start of the program 2, the active set is the program 2 then the program 1: the
  program 2 takes the tuner, the program 1 is refused and marked, and it is in
  conflict in the result.
\<close>

theorem C1_sweep_marks_witness:
  "list_all hasAuthority ex_matches
   \<and> ex_sorted = array_sort sortReserveProgram ex_matches
   \<and> event_list ex_sorted
       = [\<lparr>time = 100, isStart = True, idx = 1\<rparr>, \<lparr>time = 150, isStart = True, idx = 0\<rparr>,
          \<lparr>time = 250, isStart = False, idx = 0\<rparr>, \<lparr>time = 300, isStart = False, idx = 1\<rparr>]
   \<and> before_event [ex_tuner] ex_sorted 1
       = (ex_sorted, [1], [ex_tuner\<lparr>held := [ex_program 1 100 300]\<rparr>])
   \<and> active_after ex_sorted [1] \<lparr>time = 150, isStart = True, idx = 0\<rparr> = [0, 1]
   \<and> \<not> refused [0, 1] ex_sorted [ex_tuner] 0
   \<and> (\<exists>n<length [ex_tuner\<lparr>held := [ex_program 1 100 300]\<rparr>].
         list_all (\<lambda>t. tryAdd t (program (ex_sorted ! ([0, 1] ! 0))) = None)
           (take n (turn [0, 1] ex_sorted [ex_tuner] 0))
         \<and> tryAdd (turn [0, 1] ex_sorted [ex_tuner] 0 ! n) (program (ex_sorted ! ([0, 1] ! 0)))
             \<noteq> None
         \<and> turn [0, 1] ex_sorted [ex_tuner] (Suc 0) = (turn [0, 1] ex_sorted [ex_tuner] 0)
              [n := (turn [0, 1] ex_sorted [ex_tuner] 0 ! n)
                 \<lparr>held := held (turn [0, 1] ex_sorted [ex_tuner] 0 ! n)
                    @ [program (ex_sorted ! ([0, 1] ! 0))]\<rparr>])
   \<and> turn [0, 1] ex_sorted [ex_tuner] 1 = [ex_tuner\<lparr>held := [ex_program 2 150 250]\<rparr>]
   \<and> refused [0, 1] ex_sorted [ex_tuner] 1
   \<and> refused_at [ex_tuner] ex_sorted 1 1
   \<and> before_event [ex_tuner] ex_sorted 2
       = (fst (evaluate [0, 1] ex_sorted [ex_tuner]), [0, 1],
          turn [0, 1] ex_sorted [ex_tuner] 2)
   \<and> fst (before_event [ex_tuner] ex_sorted 2) ! 1 = (ex_sorted ! 1)\<lparr>isConflict := True\<rparr>
   \<and> fst (createReserves [ex_tuner] ex_matches)
       = array_sort byStartAt
          (map (\<lambda>l. (ex_sorted ! idx l)\<lparr>isConflict := isConflict (ex_sorted ! idx l)
                  \<or> list_ex (\<lambda>k. refused_at [ex_tuner] ex_sorted k (idx l))
                       [0..<length (event_list ex_sorted)]\<rparr>)
             (filter isStart (event_list ex_sorted)))
   \<and> map (\<lambda>r. (id_p (program r), isConflict r)) (fst (createReserves [ex_tuner] ex_matches))
       = [(1, True), (2, False)]"
proof -
  let ?evs = "[\<lparr>time = 100, isStart = True, idx = 1\<rparr>, \<lparr>time = 150, isStart = True, idx = 0\<rparr>,
          \<lparr>time = 250, isStart = False, idx = 0\<rparr>, \<lparr>time = 300, isStart = False, idx = 1\<rparr>]"
  have h: "\<forall>m\<in>set ex_matches. hasAuthority m"
    by (simp add: hasAuthority_def ex_matches_def ex_byRule_def ex_manual_def)
  have S: "ex_sorted = array_sort sortReserveProgram ex_matches" by code_simp
  have evs: "event_list ex_sorted = ?evs" by code_simp
  have b: "before_event [ex_tuner] ex_sorted 1
       = (ex_sorted, [1], [ex_tuner\<lparr>held := [ex_program 1 100 300]\<rparr>])" by code_simp
  have a: "active_after ex_sorted [1] \<lparr>time = 150, isStart = True, idx = 0\<rparr> = [0, 1]"
    by code_simp
  have cl: "map clear [ex_tuner\<lparr>held := [ex_program 1 100 300]\<rparr>] = [ex_tuner]" by code_simp
  have r0: "\<not> refused [0, 1] ex_sorted [ex_tuner] 0" by code_simp
  have t1: "turn [0, 1] ex_sorted [ex_tuner] 1 = [ex_tuner\<lparr>held := [ex_program 2 150 250]\<rparr>]"
    by code_simp
  have r1: "refused [0, 1] ex_sorted [ex_tuner] 1" by code_simp
  have ra: "refused_at [ex_tuner] ex_sorted 1 1" by code_simp
  have ns: "\<not> isSkip (ex_sorted ! 0)" by code_simp
  have c: "\<not> isConflict (ex_sorted ! 1)" by code_simp
  have res: "map (\<lambda>r. (id_p (program r), isConflict r))
      (fst (createReserves [ex_tuner] ex_matches)) = [(1, True), (2, False)]" by code_simp
  note inst = C1_sweep_marks [OF h S evs [symmetric], of "[ex_tuner]"]
  have lt: "1 < length ?evs" by simp
  have i1: "?evs ! 1 = \<lparr>time = 150, isStart = True, idx = 0\<rparr>" by simp
  have ns': "isSkip (ex_sorted ! 0) = False" using ns by simp
  note e1 = inst [THEN conjunct1, rule_format, OF lt]
  note e2 = e1 [unfolded i1 b prod.case event.select_convs ns' if_False a cl Let_def]
  have j0: "0 < length [0, 1::nat]" by simp
  have r0': "refused [0, 1] ex_sorted [ex_tuner] 0 = False" using r0 by simp
  note p0 = e2 [THEN conjunct2, THEN conjunct2, THEN conjunct2, THEN conjunct2,
      THEN conjunct2, THEN conjunct1, rule_format, OF j0, THEN conjunct2,
      unfolded r0' if_False]
  have ev: "before_event [ex_tuner] ex_sorted (Suc 1)
            = (fst (evaluate [0, 1] ex_sorted [ex_tuner]), [0, 1],
               turn [0, 1] ex_sorted [ex_tuner] (length [0, 1::nat]))
        \<and> (\<forall>i<length ex_sorted. fst (before_event [ex_tuner] ex_sorted (Suc 1)) ! i
              = (ex_sorted ! i)\<lparr>isConflict := isConflict (ex_sorted ! i)
                    \<or> refused_at [ex_tuner] ex_sorted 1 i\<rparr>)"
    using e2 by (elim conjE) (intro conjI, assumption+)
  have n2: "Suc 1 = 2" by simp
  have l2: "length [0, 1::nat] = 2" by simp
  have lt2: "1 < length ex_sorted" by (simp add: ex_sorted_def)
  have ra': "refused_at [ex_tuner] ex_sorted 1 1 = True" using ra by simp
  have nxt: "before_event [ex_tuner] ex_sorted 2
       = (fst (evaluate [0, 1] ex_sorted [ex_tuner]), [0, 1],
          turn [0, 1] ex_sorted [ex_tuner] 2)"
    using ev [THEN conjunct1] by (simp only: n2 l2)
  have mk: "fst (before_event [ex_tuner] ex_sorted 2) ! 1
      = (ex_sorted ! 1)\<lparr>isConflict := True\<rparr>"
    using ev [THEN conjunct2, rule_format, OF lt2] by (simp only: n2 ra' simp_thms)
  have eq: "fst (createReserves [ex_tuner] ex_matches)
       = array_sort byStartAt
          (map (\<lambda>l. (ex_sorted ! idx l)\<lparr>isConflict := isConflict (ex_sorted ! idx l)
                  \<or> list_ex (\<lambda>k. refused_at [ex_tuner] ex_sorted k (idx l))
                       [0..<length (event_list ex_sorted)]\<rparr>)
             (filter isStart (event_list ex_sorted)))"
    using inst [THEN conjunct2, THEN conjunct1] by (simp only: evs)
  have h': "list_all hasAuthority ex_matches" using h by (simp only: list_all_iff)
  show ?thesis
    by (intro conjI)
      (rule h', rule S, rule evs, rule b, rule a, rule r0, rule p0, rule t1, rule r1, rule ra,
       rule nxt, rule mk, rule eq, rule res)
qed

text \<open>
  The same candidates at the event 2, the end of the program 2. The program 1 is alone
  in the active set and the tuner takes it: it is not refused at this event. It keeps
  the mark of the event 1 all the same, and it is in conflict in the result.
\<close>

theorem C1_counterexample:
  "array_sort sortReserveProgram ex_matches = ex_sorted
   \<and> event_list ex_sorted ! 2 = \<lparr>time = 250, isStart = False, idx = 0\<rparr>
   \<and> (case before_event [ex_tuner] ex_sorted 2 of (m, act, tns) \<Rightarrow>
        act = [0, 1] \<and> isConflict (m ! 1)
        \<and> active_after m act (event_list ex_sorted ! 2) = [1]
        \<and> \<not> refused [1] m (map clear tns) 0
        \<and> map held (turn [1] m (map clear tns) 1) = [[ex_program 1 100 300]])
   \<and> \<not> refused_at [ex_tuner] ex_sorted 2 1
   \<and> isConflict (fst (before_event [ex_tuner] ex_sorted 3) ! 1)
   \<and> map (\<lambda>r. (id_p (program r), isConflict r)) (fst (createReserves [ex_tuner] ex_matches))
       = [(1, True), (2, False)]"
  by code_simp

subsection \<open>The authority order in the deduplication and in the allocation\<close>

lemma before_event_flight:
  assumes wf: "\<forall>x\<in>set ms. startAt (program x) \<le> endAt (program x)"
    and k: "k \<le> length (event_list ms)"
  shows "set (fst (snd (before_event ts ms k))) = set (in_flight ms (take k (event_list ms)))"
proof -
  obtain m act tns where b: "before_event ts ms k = (m, act, tns)"
    by (cases "before_event ts ms k") auto
  show ?thesis using before_event_in_flight [OF wf k b] by (simp add: b)
qed

text \<open>
  C5. For candidates that carry the identifier of their origin, \<open>createReserves\<close>
  sorts them by \<open>sortReserveProgram\<close>, the authority order (a manual candidate before
  a rule candidate, two manual ones by \<open>manualId\<close>, two rule ones by \<open>ruleId\<close>), and
  keeps the first of each program id: the result has each program id of the
  candidates exactly once, and each reservation of the result is a candidate, but for
  its conflict mark, that no candidate of the same program precedes strictly in the
  authority order.

  The same order is the priority of the allocation. After each event the active set
  holds the candidates in flight (not skipped, their start among the events so far
  and their end not; for programs that do not end before they start). At an event
  whose candidate is not skipped the active set is sorted in the authority order and
  without repetition; the tuners, cleared, take its candidates one after the other
  in that order, so that the \<open>j\<close>-th candidate finds on the tuners the programs of the
  candidates before it that were not refused, and nothing else; it is refused when
  every tuner rejects it, which is what marks it in conflict; and a tuner rejects it
  for its channel type or for the program it holds of a candidate that comes before
  in the authority order and overlaps.
\<close>

theorem C5_authority_order:
  assumes auth: "\<forall>m\<in>set ms. hasAuthority m"
    and S: "S = array_sort sortReserveProgram ms" and evs: "evs = event_list S"
  shows "sorted_wrt (\<lambda>a b. sortReserveProgram a b \<le> 0) S
    \<and> mset S = mset ms
    \<and> (hasAuthority a \<and> hasAuthority b \<longrightarrow>
         (sortReserveProgram a b \<le> 0) =
           ((isManual a \<and> \<not> isManual b)
            \<or> (isManual a \<and> isManual b \<and> the (manualId a) \<le> the (manualId b))
            \<or> (\<not> isManual a \<and> \<not> isManual b \<and> the (ruleId a) \<le> the (ruleId b))))
    \<and> distinct (map (\<lambda>r. id_p (program r)) (fst (createReserves ts ms)))
    \<and> (\<lambda>r. id_p (program r)) ` set (fst (createReserves ts ms))
         = (\<lambda>r. id_p (program r)) ` set ms
    \<and> mset (map unmark (fst (createReserves ts ms))) = mset (map unmark (dedup S Map.empty))
    \<and> (\<forall>r\<in>set (fst (createReserves ts ms)).
          \<exists>m\<in>set ms. marked_from m r
            \<and> (\<forall>m'\<in>set ms. id_p (program m') = id_p (program r)
                  \<longrightarrow> sortReserveProgram m m' \<le> 0))
    \<and> ((\<forall>x\<in>set ms. startAt (program x) \<le> endAt (program x)) \<longrightarrow>
         (\<forall>k\<le>length evs.
            set (fst (snd (before_event ts S k))) = set (in_flight S (take k evs))))
    \<and> (\<forall>k<length evs. \<not> isSkip (S ! idx (evs ! k)) \<longrightarrow>
         (case before_event ts S k of (m, act, tns) \<Rightarrow>
            let act' = active_after m act (evs ! k); cl = map clear tns in
              fst (snd (before_event ts S (Suc k))) = act'
            \<and> snd (snd (before_event ts S (Suc k))) = turn act' m cl (length act')
            \<and> sorted_wrt (\<lambda>a b. sortReserveProgram (S ! a) (S ! b) \<le> 0) act'
            \<and> distinct act'
            \<and> (\<forall>j\<le>length act'.
                  mset (concat (map held (turn act' m cl j)))
                    = mset (map (\<lambda>j'. program (S ! (act' ! j')))
                         (filter (\<lambda>j'. \<not> refused act' m cl j') [0..<j])))
            \<and> (\<forall>j<length act'.
                  refused act' m cl j
                    = list_all (\<lambda>t. tryAdd t (program (S ! (act' ! j))) = None)
                        (turn act' m cl j)
                \<and> isConflict (fst (before_event ts S (Suc k)) ! (act' ! j))
                    = (isConflict (m ! (act' ! j)) \<or> refused act' m cl j)
                \<and> (refused act' m cl j \<longrightarrow>
                     (\<forall>t\<in>set (turn act' m cl j).
                        channelType (program (S ! (act' ! j))) \<notin> set (types t)
                        \<or> (\<exists>j'<j. \<not> refused act' m cl j'
                              \<and> sortReserveProgram (S ! (act' ! j')) (S ! (act' ! j)) \<le> 0
                              \<and> program (S ! (act' ! j')) \<in> set (held t)
                              \<and> overlaps (program (S ! (act' ! j)))
                                    (program (S ! (act' ! j')))))))))"
proof -
  have authS: "\<forall>x\<in>set S. hasAuthority x" using auth by (simp add: S set_array_sort)
  have c1: "sorted_wrt (\<lambda>a b. sortReserveProgram a b \<le> 0) S"
    unfolding S by (rule sorted_matches [OF auth])
  have c2: "mset S = mset ms" by (simp add: S mset_array_sort)
  have c3: "hasAuthority a \<and> hasAuthority b \<longrightarrow>
         (sortReserveProgram a b \<le> 0) =
           ((isManual a \<and> \<not> isManual b)
            \<or> (isManual a \<and> isManual b \<and> the (manualId a) \<le> the (manualId b))
            \<or> (\<not> isManual a \<and> \<not> isManual b \<and> the (ruleId a) \<le> the (ruleId b)))"
    using sortReserveProgram_le [of a b] by blast
  have c4: "distinct (map (\<lambda>r. id_p (program r)) (fst (createReserves ts ms)))"
    by (rule createReserves_ids_distinct)
  have c5: "(\<lambda>r. id_p (program r)) ` set (fst (createReserves ts ms))
         = (\<lambda>r. id_p (program r)) ` set ms"
    by (rule createReserves_ids)
  have c6: "mset (map unmark (fst (createReserves ts ms)))
      = mset (map unmark (dedup S Map.empty))"
    unfolding S by (rule createReserves_dedup)
  have c7: "\<forall>r\<in>set (fst (createReserves ts ms)).
          \<exists>m\<in>set ms. marked_from m r
            \<and> (\<forall>m'\<in>set ms. id_p (program m') = id_p (program r)
                  \<longrightarrow> sortReserveProgram m m' \<le> 0)"
    using createReserves_first [OF auth] by blast
  have c8: "(\<forall>x\<in>set ms. startAt (program x) \<le> endAt (program x)) \<longrightarrow>
         (\<forall>k\<le>length evs.
            set (fst (snd (before_event ts S k))) = set (in_flight S (take k evs)))"
  proof (intro impI allI)
    fix k assume wf: "\<forall>x\<in>set ms. startAt (program x) \<le> endAt (program x)"
      and k: "k \<le> length evs"
    have wfS: "\<forall>x\<in>set S. startAt (program x) \<le> endAt (program x)"
      using wf by (simp add: S set_array_sort)
    show "set (fst (snd (before_event ts S k))) = set (in_flight S (take k evs))"
      using before_event_flight [OF wfS, of k ts] k by (simp add: evs)
  qed
  have c9: "\<forall>k<length evs. \<not> isSkip (S ! idx (evs ! k)) \<longrightarrow>
         (case before_event ts S k of (m, act, tns) \<Rightarrow>
            let act' = active_after m act (evs ! k); cl = map clear tns in
              fst (snd (before_event ts S (Suc k))) = act'
            \<and> snd (snd (before_event ts S (Suc k))) = turn act' m cl (length act')
            \<and> sorted_wrt (\<lambda>a b. sortReserveProgram (S ! a) (S ! b) \<le> 0) act'
            \<and> distinct act'
            \<and> (\<forall>j\<le>length act'.
                  mset (concat (map held (turn act' m cl j)))
                    = mset (map (\<lambda>j'. program (S ! (act' ! j')))
                         (filter (\<lambda>j'. \<not> refused act' m cl j') [0..<j])))
            \<and> (\<forall>j<length act'.
                  refused act' m cl j
                    = list_all (\<lambda>t. tryAdd t (program (S ! (act' ! j))) = None)
                        (turn act' m cl j)
                \<and> isConflict (fst (before_event ts S (Suc k)) ! (act' ! j))
                    = (isConflict (m ! (act' ! j)) \<or> refused act' m cl j)
                \<and> (refused act' m cl j \<longrightarrow>
                     (\<forall>t\<in>set (turn act' m cl j).
                        channelType (program (S ! (act' ! j))) \<notin> set (types t)
                        \<or> (\<exists>j'<j. \<not> refused act' m cl j'
                              \<and> sortReserveProgram (S ! (act' ! j')) (S ! (act' ! j)) \<le> 0
                              \<and> program (S ! (act' ! j')) \<in> set (held t)
                              \<and> overlaps (program (S ! (act' ! j)))
                                    (program (S ! (act' ! j'))))))))"
    unfolding evs
  proof (intro allI impI)
    fix k assume k: "k < length (event_list S)"
      and ns: "\<not> isSkip (S ! idx (event_list S ! k))"
    obtain m act tns where b: "before_event ts S k = (m, act, tns)"
      by (cases "before_event ts S k") auto
    let ?act' = "active_after m act (event_list S ! k)"
    let ?cl = "map clear tns"
    have a: "?act' = active_after m act (event_list S ! k)" by (rule refl)
    have c: "?cl = map clear tns" by (rule refl)
    note st = k b ns a c
    have srt: "sorted_wrt (\<lambda>a b. sortReserveProgram (S ! a) (S ! b) \<le> 0) ?act'"
      by (rule before_event_sorted [OF authS k b])
    have d1: "fst (snd (before_event ts S (Suc k))) = ?act'"
      by (simp only: sweep_next [OF st] fst_conv snd_conv)
    have d2: "snd (snd (before_event ts S (Suc k))) = turn ?act' m ?cl (length ?act')"
      by (simp only: sweep_next [OF st] snd_conv)
    have d3: "distinct ?act'" by (rule sweep_distinct [OF st])
    have d4: "\<forall>j\<le>length ?act'.
                  mset (concat (map held (turn ?act' m ?cl j)))
                    = mset (map (\<lambda>j'. program (S ! (?act' ! j')))
                         (filter (\<lambda>j'. \<not> refused ?act' m ?cl j') [0..<j]))"
      using sweep_held [OF st] by blast
    have d5: "\<forall>j<length ?act'.
                  refused ?act' m ?cl j
                    = list_all (\<lambda>t. tryAdd t (program (S ! (?act' ! j))) = None)
                        (turn ?act' m ?cl j)
                \<and> isConflict (fst (before_event ts S (Suc k)) ! (?act' ! j))
                    = (isConflict (m ! (?act' ! j)) \<or> refused ?act' m ?cl j)
                \<and> (refused ?act' m ?cl j \<longrightarrow>
                     (\<forall>t\<in>set (turn ?act' m ?cl j).
                        channelType (program (S ! (?act' ! j))) \<notin> set (types t)
                        \<or> (\<exists>j'<j. \<not> refused ?act' m ?cl j'
                              \<and> sortReserveProgram (S ! (?act' ! j')) (S ! (?act' ! j)) \<le> 0
                              \<and> program (S ! (?act' ! j')) \<in> set (held t)
                              \<and> overlaps (program (S ! (?act' ! j)))
                                    (program (S ! (?act' ! j'))))))"
    proof (intro allI impI conjI ballI)
      fix j assume j: "j < length ?act'"
      show "refused ?act' m ?cl j
          = list_all (\<lambda>t. tryAdd t (program (S ! (?act' ! j))) = None) (turn ?act' m ?cl j)"
        by (rule sweep_refused [OF st j])
      show "isConflict (fst (before_event ts S (Suc k)) ! (?act' ! j))
          = (isConflict (m ! (?act' ! j)) \<or> refused ?act' m ?cl j)"
        by (rule sweep_mark_nth [OF st j])
      fix t assume r: "refused ?act' m ?cl j" and t: "t \<in> set (turn ?act' m ?cl j)"
      have ord: "\<And>j'. j' < j \<Longrightarrow>
          sortReserveProgram (S ! (?act' ! j')) (S ! (?act' ! j)) \<le> 0"
        using srt j by (simp add: sorted_wrt_iff_nth_less)
      from sweep_cause [OF st j r t] ord
      show "channelType (program (S ! (?act' ! j))) \<notin> set (types t)
          \<or> (\<exists>j'<j. \<not> refused ?act' m ?cl j'
                \<and> sortReserveProgram (S ! (?act' ! j')) (S ! (?act' ! j)) \<le> 0
                \<and> program (S ! (?act' ! j')) \<in> set (held t)
                \<and> overlaps (program (S ! (?act' ! j))) (program (S ! (?act' ! j'))))"
        by blast
    qed
    have all: "fst (snd (before_event ts S (Suc k))) = ?act'
            \<and> snd (snd (before_event ts S (Suc k))) = turn ?act' m ?cl (length ?act')
            \<and> sorted_wrt (\<lambda>a b. sortReserveProgram (S ! a) (S ! b) \<le> 0) ?act'
            \<and> distinct ?act'
            \<and> (\<forall>j\<le>length ?act'.
                  mset (concat (map held (turn ?act' m ?cl j)))
                    = mset (map (\<lambda>j'. program (S ! (?act' ! j')))
                         (filter (\<lambda>j'. \<not> refused ?act' m ?cl j') [0..<j])))
            \<and> (\<forall>j<length ?act'.
                  refused ?act' m ?cl j
                    = list_all (\<lambda>t. tryAdd t (program (S ! (?act' ! j))) = None)
                        (turn ?act' m ?cl j)
                \<and> isConflict (fst (before_event ts S (Suc k)) ! (?act' ! j))
                    = (isConflict (m ! (?act' ! j)) \<or> refused ?act' m ?cl j)
                \<and> (refused ?act' m ?cl j \<longrightarrow>
                     (\<forall>t\<in>set (turn ?act' m ?cl j).
                        channelType (program (S ! (?act' ! j))) \<notin> set (types t)
                        \<or> (\<exists>j'<j. \<not> refused ?act' m ?cl j'
                              \<and> sortReserveProgram (S ! (?act' ! j')) (S ! (?act' ! j)) \<le> 0
                              \<and> program (S ! (?act' ! j')) \<in> set (held t)
                              \<and> overlaps (program (S ! (?act' ! j)))
                                    (program (S ! (?act' ! j')))))))"
      by (intro conjI) (rule d1, rule d2, rule srt, rule d3, rule d4, rule d5)
    show "case before_event ts S k of (m, act, tns) \<Rightarrow>
            let act' = active_after m act (event_list S ! k); cl = map clear tns in
              fst (snd (before_event ts S (Suc k))) = act'
            \<and> snd (snd (before_event ts S (Suc k))) = turn act' m cl (length act')
            \<and> sorted_wrt (\<lambda>a b. sortReserveProgram (S ! a) (S ! b) \<le> 0) act'
            \<and> distinct act'
            \<and> (\<forall>j\<le>length act'.
                  mset (concat (map held (turn act' m cl j)))
                    = mset (map (\<lambda>j'. program (S ! (act' ! j')))
                         (filter (\<lambda>j'. \<not> refused act' m cl j') [0..<j])))
            \<and> (\<forall>j<length act'.
                  refused act' m cl j
                    = list_all (\<lambda>t. tryAdd t (program (S ! (act' ! j))) = None)
                        (turn act' m cl j)
                \<and> isConflict (fst (before_event ts S (Suc k)) ! (act' ! j))
                    = (isConflict (m ! (act' ! j)) \<or> refused act' m cl j)
                \<and> (refused act' m cl j \<longrightarrow>
                     (\<forall>t\<in>set (turn act' m cl j).
                        channelType (program (S ! (act' ! j))) \<notin> set (types t)
                        \<or> (\<exists>j'<j. \<not> refused act' m cl j'
                              \<and> sortReserveProgram (S ! (act' ! j')) (S ! (act' ! j)) \<le> 0
                              \<and> program (S ! (act' ! j')) \<in> set (held t)
                              \<and> overlaps (program (S ! (act' ! j)))
                                    (program (S ! (act' ! j')))))))"
      by (simp only: b prod.case Let_def, rule all)
  qed
  show ?thesis
    by (intro conjI) (rule c1, rule c2, rule c3, rule c4, rule c5, rule c6, rule c7, rule c8, rule c9)
qed

text \<open>
  The program 1, matched by the rules 5 and 2, and the manual program 2, which starts
  later and overlaps, on one tuner. The rule 2 is the one kept for the program 1. At
  the start of the program 2 both candidates are in flight; the manual program 2
  comes first in the active set and takes the tuner, and the program 1 of the rule 2
  is refused for it.
\<close>

theorem C5_authority_order_witness:
  "list_all hasAuthority ex_candidates
   \<and> list_all (\<lambda>x. startAt (program x) \<le> endAt (program x)) ex_candidates
   \<and> ex_ordered = array_sort sortReserveProgram ex_candidates
   \<and> event_list ex_ordered
       = [\<lparr>time = 100, isStart = True, idx = 1\<rparr>, \<lparr>time = 150, isStart = True, idx = 0\<rparr>,
          \<lparr>time = 250, isStart = False, idx = 0\<rparr>, \<lparr>time = 300, isStart = False, idx = 1\<rparr>]
   \<and> sorted_wrt (\<lambda>a b. sortReserveProgram a b \<le> 0) ex_ordered
   \<and> distinct (map (\<lambda>r. id_p (program r)) (fst (createReserves [ex_tuner] ex_candidates)))
   \<and> map (\<lambda>r. (id_p (program r), ruleId r, manualId r, isConflict r))
        (fst (createReserves [ex_tuner] ex_candidates))
       = [(1, Some 2, None, True), (2, None, Some 1, False)]
   \<and> before_event [ex_tuner] ex_ordered 1
       = (ex_ordered, [1], [ex_tuner\<lparr>held := [ex_program 1 100 300]\<rparr>])
   \<and> active_after ex_ordered [1] \<lparr>time = 150, isStart = True, idx = 0\<rparr> = [0, 1]
   \<and> fst (snd (before_event [ex_tuner] ex_ordered (Suc 1))) = [0, 1]
   \<and> set (fst (snd (before_event [ex_tuner] ex_ordered 2)))
       = set (in_flight ex_ordered (take 2 (event_list ex_ordered)))
   \<and> in_flight ex_ordered (take 2 (event_list ex_ordered)) = [1, 0]
   \<and> sorted_wrt (\<lambda>a b. sortReserveProgram (ex_ordered ! a) (ex_ordered ! b) \<le> 0) [0, 1]
   \<and> \<not> refused [0, 1] ex_ordered [ex_tuner] 0
   \<and> map held (turn [0, 1] ex_ordered [ex_tuner] 1) = [[ex_program 2 150 250]]
   \<and> refused [0, 1] ex_ordered [ex_tuner] 1
   \<and> (\<exists>j'<1. \<not> refused [0, 1] ex_ordered [ex_tuner] j'
         \<and> sortReserveProgram (ex_ordered ! ([0, 1] ! j')) (ex_ordered ! ([0, 1] ! 1)) \<le> 0
         \<and> program (ex_ordered ! ([0, 1] ! j')) \<in> set (held (ex_tuner\<lparr>held := [ex_program 2 150 250]\<rparr>))
         \<and> overlaps (program (ex_ordered ! ([0, 1] ! 1))) (program (ex_ordered ! ([0, 1] ! j'))))
   \<and> (sortReserveProgram (ex_ordered ! 0) (ex_ordered ! 1) \<le> 0)
       = (isManual (ex_ordered ! 0) \<and> \<not> isManual (ex_ordered ! 1)
          \<or> isManual (ex_ordered ! 0) \<and> isManual (ex_ordered ! 1)
             \<and> the (manualId (ex_ordered ! 0)) \<le> the (manualId (ex_ordered ! 1))
          \<or> \<not> isManual (ex_ordered ! 0) \<and> \<not> isManual (ex_ordered ! 1)
             \<and> the (ruleId (ex_ordered ! 0)) \<le> the (ruleId (ex_ordered ! 1)))
   \<and> isManual (ex_ordered ! 0) \<and> \<not> isManual (ex_ordered ! 1)
   \<and> map isConflict (fst (before_event [ex_tuner] ex_ordered 2)) = [False, True, False]"
proof -
  let ?evs = "[\<lparr>time = 100, isStart = True, idx = 1\<rparr>, \<lparr>time = 150, isStart = True, idx = 0\<rparr>,
          \<lparr>time = 250, isStart = False, idx = 0\<rparr>, \<lparr>time = 300, isStart = False, idx = 1\<rparr>]"
  have h: "\<forall>m\<in>set ex_candidates. hasAuthority m"
    by (simp add: hasAuthority_def ex_candidates_def ex_byRule_def ex_manual_def)
  have wf: "\<forall>x\<in>set ex_candidates. startAt (program x) \<le> endAt (program x)"
    by (simp add: ex_candidates_def ex_byRule_def ex_manual_def ex_program_def)
  have S: "ex_ordered = array_sort sortReserveProgram ex_candidates" by code_simp
  have evs: "event_list ex_ordered = ?evs" by code_simp
  have res: "map (\<lambda>r. (id_p (program r), ruleId r, manualId r, isConflict r))
        (fst (createReserves [ex_tuner] ex_candidates))
       = [(1, Some 2, None, True), (2, None, Some 1, False)]" by code_simp
  have b: "before_event [ex_tuner] ex_ordered 1
       = (ex_ordered, [1], [ex_tuner\<lparr>held := [ex_program 1 100 300]\<rparr>])" by code_simp
  have a: "active_after ex_ordered [1] \<lparr>time = 150, isStart = True, idx = 0\<rparr> = [0, 1]"
    by code_simp
  have cl: "map clear [ex_tuner\<lparr>held := [ex_program 1 100 300]\<rparr>] = [ex_tuner]" by code_simp
  have fl: "in_flight ex_ordered (take 2 (event_list ex_ordered)) = [1, 0]" by code_simp
  have r0: "\<not> refused [0, 1] ex_ordered [ex_tuner] 0" by code_simp
  have t1: "map held (turn [0, 1] ex_ordered [ex_tuner] 1) = [[ex_program 2 150 250]]"
    by code_simp
  have r1: "refused [0, 1] ex_ordered [ex_tuner] 1" by code_simp
  have tin: "ex_tuner\<lparr>held := [ex_program 2 150 250]\<rparr>
      \<in> set (turn [0, 1] ex_ordered [ex_tuner] 1)" by code_simp
  have ct: "channelType (program (ex_ordered ! ([0, 1] ! 1)))
      \<in> set (types (ex_tuner\<lparr>held := [ex_program 2 150 250]\<rparr>))" by code_simp
  have j1: "1 < length [0, 1::nat]" by simp
  have au: "hasAuthority (ex_ordered ! 0) \<and> hasAuthority (ex_ordered ! 1)" by code_simp
  have m0: "isManual (ex_ordered ! 0)" by code_simp
  have m1: "\<not> isManual (ex_ordered ! 1)" by code_simp
  have mk: "map isConflict (fst (before_event [ex_tuner] ex_ordered 2)) = [False, True, False]"
    by code_simp
  have ns: "\<not> isSkip (ex_ordered ! idx (?evs ! 1))" by code_simp
  have lt: "1 < length ?evs" by simp
  have le: "2 \<le> length ?evs" by simp
  have i1: "?evs ! 1 = \<lparr>time = 150, isStart = True, idx = 0\<rparr>" by simp
  note inst = C5_authority_order [OF h S evs [symmetric],
      of "ex_ordered ! 0" "ex_ordered ! 1" "[ex_tuner]"]
  have cmp: "(sortReserveProgram (ex_ordered ! 0) (ex_ordered ! 1) \<le> 0)
       = (isManual (ex_ordered ! 0) \<and> \<not> isManual (ex_ordered ! 1)
          \<or> isManual (ex_ordered ! 0) \<and> isManual (ex_ordered ! 1)
             \<and> the (manualId (ex_ordered ! 0)) \<le> the (manualId (ex_ordered ! 1))
          \<or> \<not> isManual (ex_ordered ! 0) \<and> \<not> isManual (ex_ordered ! 1)
             \<and> the (ruleId (ex_ordered ! 0)) \<le> the (ruleId (ex_ordered ! 1)))"
    by (rule inst [THEN conjunct2, THEN conjunct2, THEN conjunct1, rule_format, OF au])
  have srt: "sorted_wrt (\<lambda>a b. sortReserveProgram a b \<le> 0) ex_ordered"
    by (rule inst [THEN conjunct1])
  have dst: "distinct (map (\<lambda>r. id_p (program r))
      (fst (createReserves [ex_tuner] ex_candidates)))"
    by (rule inst [THEN conjunct2, THEN conjunct2, THEN conjunct2, THEN conjunct1])
  note rest = inst [THEN conjunct2, THEN conjunct2, THEN conjunct2, THEN conjunct2,
      THEN conjunct2, THEN conjunct2, THEN conjunct2]
  have inf: "set (fst (snd (before_event [ex_tuner] ex_ordered 2)))
       = set (in_flight ex_ordered (take 2 (event_list ex_ordered)))"
    using rest [THEN conjunct1, rule_format, OF wf [rule_format] le] by (simp only: evs)
  note e1 = rest [THEN conjunct2, rule_format, OF lt ns]
  note e2 = e1 [unfolded i1 b prod.case a cl Let_def]
  have act: "fst (snd (before_event [ex_tuner] ex_ordered (Suc 1))) = [0, 1]"
    by (rule e2 [THEN conjunct1])
  have srt': "sorted_wrt (\<lambda>a b. sortReserveProgram (ex_ordered ! a) (ex_ordered ! b) \<le> 0)
      [0, 1]"
    by (rule e2 [THEN conjunct2, THEN conjunct2, THEN conjunct1])
  note cause = e2 [THEN conjunct2, THEN conjunct2, THEN conjunct2, THEN conjunct2,
      THEN conjunct2, rule_format, OF j1, THEN conjunct2, THEN conjunct2, rule_format,
      OF r1 tin]
  have why: "\<exists>j'<1. \<not> refused [0, 1] ex_ordered [ex_tuner] j'
         \<and> sortReserveProgram (ex_ordered ! ([0, 1] ! j')) (ex_ordered ! ([0, 1] ! 1)) \<le> 0
         \<and> program (ex_ordered ! ([0, 1] ! j')) \<in> set (held (ex_tuner\<lparr>held := [ex_program 2 150 250]\<rparr>))
         \<and> overlaps (program (ex_ordered ! ([0, 1] ! 1))) (program (ex_ordered ! ([0, 1] ! j')))"
    using cause ct by blast
  have h': "list_all hasAuthority ex_candidates" using h by (simp only: list_all_iff)
  have wf': "list_all (\<lambda>x. startAt (program x) \<le> endAt (program x)) ex_candidates"
    using wf by (simp only: list_all_iff)
  show ?thesis
    by (intro conjI)
      (rule h', rule wf', rule S, rule evs, rule srt, rule dst, rule res, rule b, rule a,
       rule act, rule inf, rule fl, rule srt', rule r0, rule t1, rule r1, rule why, rule cmp,
       rule m0, rule m1, rule mk)
qed

end
